theory Spec2Isabelle
  imports Complex_Main "HOL-Library.AList"
begin

section \<open>Utilities (module utils)\<close>

text \<open>
  A JavaScript number is modelled as the real number it denotes. \<open>Math.min\<close> and
  \<open>Math.max\<close> return one of their arguments, so on numbers that are not NaN they are
  the lattice operations \<open>min\<close> and \<open>max\<close>.
\<close>

definition clamp :: "real \<Rightarrow> real \<Rightarrow> real \<Rightarrow> real" where
  "clamp x mn mx = min (max x mn) mx"

text \<open>
  \<open>loop(actions, time)\<close> computes \<open>delta\<close> from the module variable \<open>lastTime\<close>,
  stores \<open>time\<close> in it, passes \<open>delta\<close> to every action and calls itself with the
  next timestamp. The loop never ends; \<open>loop fl lastTime ts\<close> is the list of the deltas
  passed to the actions for the timestamps \<open>ts\<close> of the first frames.

  The subtraction and the division of the source round their result to a double, and the
  literal \<open>0.1\<close> is the double nearest to one tenth: \<open>fl\<close> is that rounding, a parameter
  (the identity gives exact arithmetic). The timestamps (the default \<open>0\<close> and the values
  of \<open>requestAnimationFrame\<close>) are finite, and so are the results here; NaN and the
  infinities are outside the model.
\<close>

fun loop :: "(real \<Rightarrow> real) \<Rightarrow> real \<Rightarrow> real list \<Rightarrow> real list" where
  "loop fl lastTime [] = []"
| "loop fl lastTime (time # ts) =
     (let delta = clamp (fl (fl (time - lastTime) / 1000)) 0 (fl (1 / 10))
      in delta # loop fl time ts)"

section \<open>Entities (module entity)\<close>

type_synonym ref = nat
type_synonym cid = nat

text \<open>
  An entry of the \<open>children\<close> set: the object literal \<open>{name, order, child}\<close> of
  \<open>addChild\<close>. Entries are compared by reference in the source; every entry of one
  entity is created by \<open>addChild\<close> with a fresh \<open>order\<close>, so that two entries of
  one entity are the same object exactly when their fields are equal.
\<close>

record childEntry =
  name :: string
  order :: nat
  child :: ref

text \<open>
  The fields of class \<open>Entity\<close>. \<open>components\<close> is a \<open>Map\<close> that is iterated, hence an
  association list in insertion order; \<open>children\<close> is a \<open>Set\<close> that is iterated, hence a
  list in insertion order; \<open>childrenByName\<close> and \<open>childrenByChild\<close> are only looked up.
\<close>

record entity =
  active :: bool
  components :: "(string \<times> cid) list"
  nextChildOrder :: nat
  children :: "childEntry list"
  childrenByName :: "string \<rightharpoonup> childEntry"
  childrenByChild :: "ref \<rightharpoonup> childEntry"
  parent :: "ref option"

definition new_Entity :: entity where
  "new_Entity = \<lparr>active = True, components = [], nextChildOrder = 0, children = [],
     childrenByName = Map.empty, childrenByChild = Map.empty, parent = None\<rparr>"

text \<open>
  The store maps every reference to the entity object it denotes; a reference that no
  constructor call has returned yet denotes a fresh entity.
\<close>

type_synonym store = "ref \<Rightarrow> entity"

definition fresh_store :: store where
  "fresh_store = (\<lambda>_. new_Entity)"

datatype error = AlreadyParented | NotParentedHere | TypeError

text \<open>
  \<open>addChild\<close> and \<open>removeChild\<close> return the error they throw, if any, together with
  the store as it is when they return or throw.
\<close>

definition addChild :: "ref \<Rightarrow> string \<Rightarrow> ref \<Rightarrow> store \<Rightarrow> error option \<times> store" where
  "addChild this objectName c s =
     (if parent (s c) \<noteq> None then (Some AlreadyParented, s)
      else
        let e = s this;
            childEntry = \<lparr>name = objectName, order = nextChildOrder e, child = c\<rparr>;
            s1 = s(this := e\<lparr>nextChildOrder := nextChildOrder e + 1,
                             children := children e @ [childEntry],
                             childrenByName := (childrenByName e)(objectName \<mapsto> childEntry),
                             childrenByChild := (childrenByChild e)(c \<mapsto> childEntry)\<rparr>)
        in (None, s1(c := (s1 c)\<lparr>parent := Some this\<rparr>)))"

definition removeChild :: "ref \<Rightarrow> ref \<Rightarrow> store \<Rightarrow> error option \<times> store" where
  "removeChild this c s =
     (if parent (s c) \<noteq> Some this then (Some NotParentedHere, s)
      else
        (case childrenByChild (s this) c of
           None \<Rightarrow> (Some TypeError, s)
         | Some childEntry \<Rightarrow>
             let e = s this;
                 e1 = e\<lparr>childrenByChild := (childrenByChild e)(c := None)\<rparr>;
                 e2 = (if childrenByName e1 (name childEntry) = Some childEntry
                       then e1\<lparr>childrenByName := (childrenByName e1)(name childEntry := None)\<rparr>
                       else e1);
                 e3 = e2\<lparr>children := remove1 childEntry (children e2)\<rparr>;
                 s1 = s(this := e3)
             in (None, s1(c := (s1 c)\<lparr>parent := None\<rparr>))))"

definition getChild :: "ref \<Rightarrow> string \<Rightarrow> store \<Rightarrow> ref option" where
  "getChild this objectName s =
     (case childrenByName (s this) objectName of
        None \<Rightarrow> None
      | Some childEntry \<Rightarrow> Some (child childEntry))"

text \<open>
  \<open>walkChildren(fn)\<close> sorts a copy of the children by \<open>order\<close> and calls \<open>fn(v.child,
  v.name)\<close> on each; the value is the list of these argument pairs, in call order.
\<close>

definition walkChildren :: "ref \<Rightarrow> store \<Rightarrow> (ref \<times> string) list" where
  "walkChildren this s =
     map (\<lambda>v. (child v, name v)) (sort_key order (children (s this)))"

text \<open>\<open>getComponent(type)\<close> is \<open>this.components.get(type)\<close>.\<close>

definition getComponent :: "ref \<Rightarrow> string \<Rightarrow> store \<Rightarrow> cid option" where
  "getComponent this type s = map_of (components (s this)) type"

text \<open>The assignment \<open>e.active = b\<close>, which components make on their owner.\<close>

definition setActive :: "ref \<Rightarrow> bool \<Rightarrow> store \<Rightarrow> store" where
  "setActive e b s = s(e := (s e)\<lparr>active := b\<rparr>)"

section \<open>Histories of calls\<close>

text \<open>
  The two mutating methods as operations, and the run of a list of calls from a store.
  The history pairs every call with whether it returned normally.
\<close>


datatype op = AddChild ref string ref | RemoveChild ref ref

fun exec_op :: "op \<Rightarrow> store \<Rightarrow> error option \<times> store" where
  "exec_op (AddChild e objectName c) s = addChild e objectName c s"
| "exec_op (RemoveChild e c) s = removeChild e c s"

fun run_ops :: "op list \<Rightarrow> store \<Rightarrow> (op \<times> bool) list \<times> store" where
  "run_ops [] s = ([], s)"
| "run_ops (x # xs) s =
     (let (r, s1) = exec_op x s; (h, s2) = run_ops xs s1 in ((x, r = None) # h, s2))"

text \<open>
  The insertion sequence of entity \<open>e\<close>, in the words of the specification: the children
  that \<open>e\<close> owns now, in the order in which they were added; a successful
  \<open>e.addChild(name, c)\<close> puts \<open>c\<close> last, a successful \<open>e.removeChild(c)\<close> takes
  \<open>c\<close> out.
\<close>

fun record_call :: "ref \<Rightarrow> (ref \<times> string) list \<Rightarrow> op \<times> bool \<Rightarrow> (ref \<times> string) list" where
  "record_call e kids (AddChild p objectName c, ok) =
     (if ok \<and> p = e then kids @ [(c, objectName)] else kids)"
| "record_call e kids (RemoveChild p c, ok) =
     (if ok \<and> p = e then filter (\<lambda>(x, _). x \<noteq> c) kids else kids)"

definition insertion_sequence :: "ref \<Rightarrow> (op \<times> bool) list \<Rightarrow> (ref \<times> string) list" where
  "insertion_sequence e h = foldl (record_call e) [] h"

text \<open>The children of an entity in the order of the \<open>children\<close> set.\<close>

definition kids :: "store \<Rightarrow> ref \<Rightarrow> (ref \<times> string) list" where
  "kids s e = map (\<lambda>v. (child v, name v)) (children (s e))"

text \<open>
  The representation invariant of class \<open>Entity\<close>: orders ascend along the set and lie
  below \<open>nextChildOrder\<close>, no entity is a child twice, \<open>childrenByChild\<close> indexes the
  set, and the \<open>parent\<close> references mirror the sets.
\<close>

definition entity_inv :: "store \<Rightarrow> bool" where
  "entity_inv s \<longleftrightarrow>
     (\<forall>e. sorted_wrt (<) (map order (children (s e)))
        \<and> (\<forall>ce \<in> set (children (s e)). order ce < nextChildOrder (s e))
        \<and> distinct (map child (children (s e)))
        \<and> (\<forall>c ce. childrenByChild (s e) c = Some ce \<longleftrightarrow> ce \<in> set (children (s e)) \<and> child ce = c)
        \<and> (\<forall>c. parent (s c) = Some e \<longleftrightarrow> c \<in> child ` set (children (s e))))"

section \<open>Scene traversals (module scene)\<close>

text \<open>
  \<open>findObjectRecursive\<close> and \<open>walkRecursive\<close> recurse along the child references of
  the store, which need not be well-founded. The first argument bounds the depth of the
  recursion; \<open>None\<close> says that the bound was reached, that is, that no value was
  returned.

  The callback that \<open>findObjectRecursive\<close> passes to \<open>walkChildren\<close>:
  \<open>(obj) => { if (!found) found = this.findObjectRecursive(obj, objectName); }\<close>,
  as a function of the variable \<open>found\<close>.
\<close>

definition find_callback ::
  "(ref \<Rightarrow> ref option option) \<Rightarrow> ref \<times> string \<Rightarrow> ref option option \<Rightarrow> ref option option" where
  "find_callback rec ck found =
     (case found of
        None \<Rightarrow> None
      | Some (Some f) \<Rightarrow> Some (Some f)
      | Some None \<Rightarrow> rec (fst ck))"

fun findObjectRecursive :: "nat \<Rightarrow> store \<Rightarrow> ref \<Rightarrow> string \<Rightarrow> ref option option" where
  "findObjectRecursive 0 s p objectName = None"
| "findObjectRecursive (Suc n) s p objectName =
     (case getChild p objectName s of
        Some found \<Rightarrow> Some (Some found)
      | None \<Rightarrow>
          fold (find_callback (\<lambda>obj. findObjectRecursive n s obj objectName))
               (walkChildren p s) (Some None))"

definition findObject :: "nat \<Rightarrow> store \<Rightarrow> ref \<Rightarrow> string \<Rightarrow> ref option option" where
  "findObject n s rt objectName = findObjectRecursive n s rt objectName"

text \<open>
  \<open>walk(fn, onlyActive)\<close> chains promises: \<open>fn(c, k)\<close> is called when the chain so far
  is fulfilled, and \<open>walkRecursive\<close> on \<open>c\<close> when the promise of \<open>fn(c, k)\<close> is. The chain
  is modelled as the sequential composition it denotes. The callback \<open>fn\<close> acts on a state
  of its own (for the frame systems, the lists of components collected so far) and may
  reject (\<open>Inl\<close>), after which no later callback of the chain runs; it does not modify
  the tree. The value of a walk is the list of the argument pairs \<open>fn\<close> was called with,
  in call order, and the state or the rejection.

  The callback that \<open>walkRecursive\<close> passes to \<open>walkChildren\<close>:
  \<open>(c, k) => { p = p.then(() => fn(c, k)).then(() => this.walkRecursive(fn, c, k,
  onlyActive)); }\<close>, as a function of the promise \<open>p\<close>.
\<close>

type_synonym ('e, 'a) walked = "(ref \<times> string) list \<times> ('e + 'a)"

definition walk_callback ::
  "(ref \<Rightarrow> string \<Rightarrow> 'a \<Rightarrow> 'e + 'a)
     \<Rightarrow> (ref \<Rightarrow> string \<Rightarrow> (ref \<times> string) list \<times> 'a \<Rightarrow> ('e, 'a) walked option)
     \<Rightarrow> ref \<times> string \<Rightarrow> ('e, 'a) walked option \<Rightarrow> ('e, 'a) walked option" where
  "walk_callback fn rec ck p =
     (case p of
        None \<Rightarrow> None
      | Some (vs, Inl e) \<Rightarrow> Some (vs, Inl e)
      | Some (vs, Inr a) \<Rightarrow>
          (case fn (fst ck) (snd ck) a of
             Inl e \<Rightarrow> Some (vs @ [ck], Inl e)
           | Inr a' \<Rightarrow> rec (fst ck) (snd ck) (vs @ [ck], a')))"

fun walkRecursive ::
  "nat \<Rightarrow> store \<Rightarrow> (ref \<Rightarrow> string \<Rightarrow> 'a \<Rightarrow> 'e + 'a) \<Rightarrow> ref \<Rightarrow> string \<Rightarrow> bool
     \<Rightarrow> (ref \<times> string) list \<times> 'a \<Rightarrow> ('e, 'a) walked option" where
  "walkRecursive 0 s fn entity nm onlyActive va = None"
| "walkRecursive (Suc n) s fn entity nm onlyActive va =
     (if onlyActive \<and> \<not> active (s entity) then Some (fst va, Inr (snd va))
      else
        fold (walk_callback fn (\<lambda>c k. walkRecursive n s fn c k onlyActive))
             (walkChildren entity s) (Some (fst va, Inr (snd va))))"

definition walk ::
  "nat \<Rightarrow> store \<Rightarrow> ref \<Rightarrow> (ref \<Rightarrow> string \<Rightarrow> 'a \<Rightarrow> 'e + 'a) \<Rightarrow> bool \<Rightarrow> 'a
     \<Rightarrow> ('e, 'a) walked option" where
  "walk n s rt fn onlyActive a = walkRecursive n s fn rt ''(root)'' onlyActive ([], a)"

text \<open>The tree below \<open>e\<close> has fewer than \<open>n\<close> levels below \<open>e\<close>.\<close>

fun depth_le :: "nat \<Rightarrow> store \<Rightarrow> ref \<Rightarrow> bool" where
  "depth_le 0 s e = False"
| "depth_le (Suc n) s e = (\<forall>ck \<in> set (walkChildren e s). depth_le n s (fst ck))"

text \<open>\<open>descendant s b c\<close>: \<open>c\<close> is a child of \<open>b\<close>, or a child of a descendant of \<open>b\<close>.\<close>

inductive descendant :: "store \<Rightarrow> ref \<Rightarrow> ref \<Rightarrow> bool" for s b where
  child: "ck \<in> set (walkChildren b s) \<Longrightarrow> descendant s b (fst ck)"
| step: "descendant s b m \<Longrightarrow> ck \<in> set (walkChildren m s) \<Longrightarrow> descendant s b (fst ck)"

text \<open>
  \<open>active_below s rt c\<close>: \<open>c\<close> is an active descendant of \<open>rt\<close>, and \<open>rt\<close> and all
  entities between \<open>rt\<close> and \<open>c\<close> are active.
\<close>

inductive active_below :: "store \<Rightarrow> ref \<Rightarrow> ref \<Rightarrow> bool" for s rt where
  top: "active (s rt) \<Longrightarrow> ck \<in> set (walkChildren rt s) \<Longrightarrow> active (s (fst ck)) \<Longrightarrow>
          active_below s rt (fst ck)"
| below: "active_below s rt p \<Longrightarrow> ck \<in> set (walkChildren p s) \<Longrightarrow> active (s (fst ck)) \<Longrightarrow>
          active_below s rt (fst ck)"

text \<open>A callback that does nothing and is fulfilled.\<close>

definition visit_only :: "ref \<Rightarrow> string \<Rightarrow> unit \<Rightarrow> unit + unit" where
  "visit_only c k a = Inr a"

text \<open>
  The rule the search follows: the first entity of a list that has a direct child
  registered under the name in its by-name index, and that child.
\<close>

definition first_by_name :: "store \<Rightarrow> string \<Rightarrow> ref list \<Rightarrow> ref option" where
  "first_by_name s nm ps =
     (case find (\<lambda>p. getChild p nm s \<noteq> None) ps of
        None \<Rightarrow> None
      | Some p \<Rightarrow> getChild p nm s)"

text \<open>
  The first entity whose registration name is \<open>nm\<close>, in the order in which
  \<open>walk(fn, false)\<close> visits the descendants of the root.
\<close>

definition first_in_walk_order :: "nat \<Rightarrow> store \<Rightarrow> ref \<Rightarrow> string \<Rightarrow> ref option option" where
  "first_in_walk_order n s rt nm =
     map_option (\<lambda>r. map_option fst (find (\<lambda>ck. snd ck = nm) (fst r)))
       (walk n s rt visit_only False ())"

subsection \<open>Example scenes\<close>

text \<open>
  The root is entity 0. In the first scene root owns A (1), A owns B (2), B owns C (3),
  and B has been made inactive. In the second, root owns \<open>a\<close> (1) and then \<open>t\<close> (3), and
  \<open>a\<close> owns another \<open>t\<close> (2).
\<close>

definition scene_inactive :: store where
  "scene_inactive =
     setActive 2 False
       (snd (run_ops [AddChild 0 ''A'' 1, AddChild 1 ''B'' 2, AddChild 2 ''C'' 3] fresh_store))"

definition scene_two_names :: store where
  "scene_two_names =
     snd (run_ops [AddChild 0 ''a'' 1, AddChild 1 ''t'' 2, AddChild 0 ''t'' 3] fresh_store)"

section \<open>Components (module components/component)\<close>

type_synonym pid = nat

text \<open>
  JavaScript values, as far as the engine core tells them apart: the values that reach
  \<open>Component.findComponent\<close> from a descriptor field (a string, a component instance,
  or anything else), the descriptors themselves (opaque objects), promises and arrays.
\<close>

datatype jsval = Undefined | Null | Boolean bool | Number real | Str string
  | Component cid | Object nat | Promise pid | Array "jsval list"

text \<open>
  \<open>str.split('.')\<close>: the pieces of \<open>str\<close> between the separators, at least one.
\<close>

fun js_split :: "char \<Rightarrow> string \<Rightarrow> string list" where
  "js_split sep [] = [[]]"
| "js_split sep (c # cs) =
     (if c = sep then [] # js_split sep cs
      else (case js_split sep cs of
              [] \<Rightarrow> [[c]]
            | t # ts \<Rightarrow> (c # t) # ts))"

text \<open>
  \<open>findComponent(name)\<close>, with the current scene given by its store and root.
  \<open>tokens[1]\<close> is \<open>undefined\<close> when the string has no dot, and no component is stored
  under that key; \<open>target && ...\<close> is \<open>undefined\<close> when no object was found. The
  value is \<open>None\<close> when the search of \<open>findObject\<close> does not return.
\<close>

definition findComponent :: "nat \<Rightarrow> store \<Rightarrow> ref \<Rightarrow> jsval \<Rightarrow> jsval option" where
  "findComponent n s rt nm =
     (case nm of
        Str str \<Rightarrow>
          (case js_split CHR ''.'' str of
             [] \<Rightarrow> Some Undefined
           | targetName # rest \<Rightarrow>
               (let compName = (case rest of [] \<Rightarrow> None | t # _ \<Rightarrow> Some t)
                in case findObject n s rt targetName of
                     None \<Rightarrow> None
                   | Some None \<Rightarrow> Some Undefined
                   | Some (Some target) \<Rightarrow>
                       Some (case compName of
                               None \<Rightarrow> Undefined
                             | Some type \<Rightarrow>
                                 (case getComponent target type s of
                                    None \<Rightarrow> Undefined
                                  | Some c \<Rightarrow> Component c))))
      | _ \<Rightarrow> Some nm)"

text \<open>The second example scene with a component 5 of type \<open>Sprite\<close> on entity 1.\<close>

definition scene_with_sprite :: store where
  "scene_with_sprite =
     scene_two_names(1 := (scene_two_names 1)\<lparr>components := [(''Sprite'', 5)]\<rparr>)"

section \<open>Promises and the job queue\<close>

text \<open>
  The asynchronous methods of the engine are written with promises. Their model is a
  state machine: a table of promises with their reactions, and the queue of promise
  jobs that the run time executes one after the other, as ECMAScript specifies them
  (\<open>PerformPromiseThen\<close>, \<open>FulfillPromise\<close>, \<open>RejectPromise\<close>, the resolving
  functions, \<open>NewPromiseResolveThenableJob\<close>, \<open>PromiseReactionJob\<close>, \<open>Promise.all\<close>).

  Every arrow function that the source passes to \<open>then\<close> is a constructor of type
  \<open>handler\<close>, with the variables it captures as arguments; \<open>run_handler\<close> below holds
  their bodies.
\<close>

datatype pstate = Pending | Fulfilled jsval | Rejected jsval

datatype meth = Create | Setup | Display | Render | Update

text \<open>
  The callbacks that the frame systems pass to \<open>Scene.walk\<close>:
  \<open>(e) => this.walkFn(displayComp, cameraComp, e)\<close> and
  \<open>(e) => this.walkFn(components, e)\<close>. The arrays they capture are in the state, and
  are named by their index there.
\<close>

datatype walkFn = Display_walkIterFn nat nat | Logic_walkIterFn nat

datatype handler =
    addComponent_create cid jsval
    \<comment> \<open>\<open>() => newComponent.create(descr)\<close>\<close>
  | addComponent_created cid jsval
    \<comment> \<open>\<open>() => { Scene.current.onComponentCreated(newComponent, descr); return newComponent; }\<close>\<close>
  | setupMissing_setup cid jsval
    \<comment> \<open>\<open>() => { return comp.setup(descr); }\<close>\<close>
  | setupMissing_delete cid
    \<comment> \<open>\<open>() => { this.compDescr.delete(comp); }\<close>\<close>
  | refresh_again
    \<comment> \<open>\<open>() => { this.refresh(); }\<close>\<close>
  | SceneMgr_refresh
    \<comment> \<open>\<open>() => Scene.current.refresh()\<close> of \<open>SceneMgrSystem.iterate\<close>\<close>
  | walkRecursive_fn walkFn ref string
    \<comment> \<open>\<open>() => fn(c, k)\<close>\<close>
  | walkRecursive_rec walkFn ref string bool
    \<comment> \<open>\<open>() => this.walkRecursive(fn, c, k, onlyActive)\<close>\<close>
  | Display_calls pid nat nat jsval
    \<comment> \<open>the callback of \<open>DisplaySystem.iterate\<close> after the walk; it captures \<open>p\<close>,
        the arrays \<open>displayComp\<close> and \<open>cameraComp\<close>, and \<open>dT\<close>\<close>
  | Display_display cid jsval
    \<comment> \<open>\<open>() => c.display(dT)\<close>\<close>
  | Display_render cid jsval
    \<comment> \<open>\<open>() => c.render(dT)\<close>\<close>
  | Logic_updates nat jsval
    \<comment> \<open>the callback of \<open>LogicSystem.iterate\<close> after the walk; it captures the array
        \<open>components\<close> and \<open>timing\<close>\<close>
  | ResolveFn pid
    \<comment> \<open>the resolving function of a promise\<close>
  | RejectFn pid
    \<comment> \<open>the rejecting function of a promise\<close>
  | ResolveElement nat nat
    \<comment> \<open>the function \<open>Promise.all\<close> attaches to its element of the given index\<close>
  | Thrower
    \<comment> \<open>the reaction to a rejection where \<open>then\<close> was given no second argument\<close>

record reaction =
  onFulfilled :: handler
  onRejected :: handler
  derived :: pid

datatype job = ReactionJob handler jsval pid | ThenableJob pid pid

text \<open>
  The trace records what happens, for the statement of temporal properties; nothing
  reads it. \<open>Call q m c\<close>: method \<open>m\<close> of component \<open>c\<close> is invoked, by the handler
  whose result resolves promise \<open>q\<close>; \<open>Return q v\<close> and \<open>Throws q v\<close>: that call
  returns or throws; \<open>Fulfil p\<close> and \<open>Reject p\<close>: promise \<open>p\<close> is settled;
  \<open>Enqueue c\<close>: \<open>onComponentCreated\<close> puts \<open>c\<close> in the unresolved-setup queue;
  \<open>Then p h q\<close>: \<open>p.then(h)\<close> is evaluated and gives the promise \<open>q\<close>;
  \<open>Visit q c k\<close>: the walk calls \<open>fn(c, k)\<close>, and \<open>Descend q c k\<close>: it calls
  \<open>walkRecursive(fn, c, k, onlyActive)\<close>, in the handler whose result resolves \<open>q\<close>;
  their \<open>Return q v\<close> follows.
\<close>

datatype event =
    Call pid meth cid
  | Return pid jsval
  | Throws pid jsval
  | Fulfil pid
  | Reject pid
  | Enqueue cid
  | Then pid handler pid
  | Visit pid ref string
  | Descend pid ref string

text \<open>
  A component: its owner, \<open>_enabled\<close>, \<open>__type\<close>, and whether its class defines
  \<open>display\<close>, \<open>render\<close> and \<open>update\<close> (what \<open>isDisplayComponent\<close>,
  \<open>isCameraComponent\<close> and \<open>isLogicComponent\<close> test).
\<close>

record component =
  owner :: ref
  enabled :: bool
  ctype :: string
  hasDisplay :: bool
  hasRender :: bool
  hasUpdate :: bool

record all_record =
  elements :: "jsval list"
  remaining :: nat
  capability :: pid

text \<open>
  The state: the entities and components, the scene (\<open>root\<close> and \<open>compDescr\<close>, a
  \<open>Map\<close> that is iterated, hence an association list in insertion order), the frame
  counter of the logic system, the arrays in which the frame systems collect components
  during a walk, the promises, the records of the running \<open>Promise.all\<close> calls, the
  promises that only the environment settles (a pending load), the job queue and the
  trace.
\<close>

record world =
  entities :: store
  sceneRoot :: ref
  comps :: "cid \<Rightarrow> component"
  nextComp :: cid
  compDescr :: "(cid \<times> jsval) list"
  frameCount :: nat
  arrays :: "nat \<Rightarrow> cid list"
  nextArray :: nat
  promises :: "pid \<Rightarrow> pstate"
  reactions :: "pid \<Rightarrow> reaction list"
  nextPromise :: pid
  alls :: "nat \<Rightarrow> all_record"
  nextAll :: nat
  externals :: "pid list"
  jobs :: "job list"
  trace :: "event list"

text \<open>
  The code of the components is a parameter. \<open>creator\<close> is \<open>Entity.componentCreator\<close>:
  which methods the class registered under a type tag defines, or \<open>None\<close> when the tag
  is not registered (\<open>ComponentFactory.create\<close> then throws a \<open>TypeError\<close>).
  \<open>behaviour\<close> says what a method of a component does when it is called, which may
  depend on the whole state: it calls \<open>addComponent\<close> on entities, and then returns
  \<open>undefined\<close>, throws, returns a new promise that the environment settles later, or
  returns the promise of its last \<open>addComponent\<close> call.
\<close>

datatype uaction = UAddComponent ref string jsval
datatype uret = RetUndefined | RetThrow | RetExternal | RetLast
datatype behaviour = Behaviour "uaction list" uret
datatype completion = Normal jsval | Abrupt jsval

record program =
  creator :: "string \<Rightarrow> (bool \<times> bool \<times> bool) option"
  behaviour :: "meth \<Rightarrow> cid \<Rightarrow> jsval \<Rightarrow> world \<Rightarrow> behaviour"

definition emit :: "event \<Rightarrow> world \<Rightarrow> world" where
  "emit e w = w\<lparr>trace := trace w @ [e]\<rparr>"

subsection \<open>Promise operations\<close>

definition newPromise :: "pstate \<Rightarrow> world \<Rightarrow> pid \<times> world" where
  "newPromise st w =
     (nextPromise w, w\<lparr>promises := (promises w)(nextPromise w := st),
                       nextPromise := nextPromise w + 1\<rparr>)"

definition FulfillPromise :: "pid \<Rightarrow> jsval \<Rightarrow> world \<Rightarrow> world" where
  "FulfillPromise p v w =
     emit (Fulfil p)
       (w\<lparr>promises := (promises w)(p := Fulfilled v),
          reactions := (reactions w)(p := []),
          jobs := jobs w @ map (\<lambda>r. ReactionJob (onFulfilled r) v (derived r)) (reactions w p)\<rparr>)"

definition RejectPromise :: "pid \<Rightarrow> jsval \<Rightarrow> world \<Rightarrow> world" where
  "RejectPromise p v w =
     emit (Reject p)
       (w\<lparr>promises := (promises w)(p := Rejected v),
          reactions := (reactions w)(p := []),
          jobs := jobs w @ map (\<lambda>r. ReactionJob (onRejected r) v (derived r)) (reactions w p)\<rparr>)"

definition TypeError_value :: jsval where
  "TypeError_value = Str ''TypeError''"

text \<open>
  The resolving functions of promise \<open>p\<close>. A promise value is adopted by a job that
  calls its \<open>then\<close>; any other value fulfils \<open>p\<close>.
\<close>

definition resolveFunction :: "pid \<Rightarrow> jsval \<Rightarrow> world \<Rightarrow> world" where
  "resolveFunction p v w =
     (if promises w p \<noteq> Pending then w
      else case v of
             Promise r \<Rightarrow>
               if r = p then RejectPromise p TypeError_value w
               else w\<lparr>jobs := jobs w @ [ThenableJob p r]\<rparr>
           | _ \<Rightarrow> FulfillPromise p v w)"

definition rejectFunction :: "pid \<Rightarrow> jsval \<Rightarrow> world \<Rightarrow> world" where
  "rejectFunction p v w = (if promises w p \<noteq> Pending then w else RejectPromise p v w)"

text \<open>\<open>p.then(onF, onR)\<close>; \<open>onR\<close> is \<open>Thrower\<close> where the source passes one argument.\<close>

definition Promise_then :: "pid \<Rightarrow> handler \<Rightarrow> handler \<Rightarrow> world \<Rightarrow> pid \<times> world" where
  "Promise_then p onF onR w =
     (let (q, w1) = newPromise Pending (emit (Then p onF (nextPromise w)) w)
      in case promises w p of
           Pending \<Rightarrow>
             (q, w1\<lparr>reactions := (reactions w1)
                      (p := reactions w1 p @ [\<lparr>onFulfilled = onF, onRejected = onR, derived = q\<rparr>])\<rparr>)
         | Fulfilled v \<Rightarrow> (q, w1\<lparr>jobs := jobs w1 @ [ReactionJob onF v q]\<rparr>)
         | Rejected v \<Rightarrow> (q, w1\<lparr>jobs := jobs w1 @ [ReactionJob onR v q]\<rparr>))"

text \<open>\<open>Promise.resolve(v)\<close>: \<open>v\<close> itself when it is a promise, else a fulfilled promise.\<close>

definition Promise_resolve :: "jsval \<Rightarrow> world \<Rightarrow> pid \<times> world" where
  "Promise_resolve v w =
     (case v of
        Promise p \<Rightarrow> (p, w)
      | _ \<Rightarrow> (let (p, w1) = newPromise (Fulfilled v) w in (p, emit (Fulfil p) w1)))"

text \<open>
  \<open>Promise.all(items)\<close>: the count of the elements that remain is the number of items
  when the loop over them ends, since no element function runs before.
\<close>

definition Promise_all_element :: "nat \<Rightarrow> pid \<Rightarrow> nat \<times> jsval \<Rightarrow> world \<Rightarrow> world" where
  "Promise_all_element a R ix w =
     (let (p, wa) = Promise_resolve (snd ix) w
      in snd (Promise_then p (ResolveElement a (fst ix)) (RejectFn R) wa))"

definition Promise_all :: "jsval list \<Rightarrow> world \<Rightarrow> pid \<times> world" where
  "Promise_all items w =
     (let (R, w1) = newPromise Pending w;
          a = nextAll w1;
          w2 = w1\<lparr>alls := (alls w1)
                   (a := \<lparr>elements = replicate (length items) Undefined,
                          remaining = length items, capability = R\<rparr>),
                 nextAll := a + 1\<rparr>;
          w3 = fold (Promise_all_element a R) (enumerate 0 items) w2
      in (R, if items = [] then resolveFunction R (Array []) w3 else w3))"

subsection \<open>Entity.addComponent\<close>

text \<open>
  The value is the completion of the call (the returned promise, or the exception of the
  constructor) and the state when the call returns.
\<close>

definition addComponent :: "program \<Rightarrow> ref \<Rightarrow> string \<Rightarrow> jsval \<Rightarrow> world \<Rightarrow> completion \<times> world" where
  "addComponent prog this type descr w =
     (case creator prog type of
        None \<Rightarrow> (Abrupt TypeError_value, w)
      | Some (d, r, u) \<Rightarrow>
          let newComponent = nextComp w;
              w1 = w\<lparr>comps := (comps w)
                       (newComponent := \<lparr>owner = this, enabled = True, ctype = type,
                                         hasDisplay = d, hasRender = r, hasUpdate = u\<rparr>),
                     nextComp := newComponent + 1\<rparr>;
              w2 = w1\<lparr>entities := (entities w1)
                       (this := (entities w1 this)
                          \<lparr>components := AList.update type newComponent
                                            (components (entities w1 this))\<rparr>)\<rparr>;
              (p0, w3) = Promise_resolve Undefined w2;
              (p1, w4) = Promise_then p0 (addComponent_create newComponent descr) Thrower w3;
              (p2, w5) = Promise_then p1 (addComponent_created newComponent descr) Thrower w4
          in (Normal (Promise p2), w5))"

subsection \<open>Calls of component methods\<close>

fun run_actions :: "program \<Rightarrow> uaction list \<Rightarrow> jsval \<Rightarrow> world \<Rightarrow> completion \<times> world" where
  "run_actions prog [] lst w = (Normal lst, w)"
| "run_actions prog (UAddComponent e t d # acts) lst w =
     (case addComponent prog e t d w of
        (Abrupt x, w1) \<Rightarrow> (Abrupt x, w1)
      | (Normal v, w1) \<Rightarrow> run_actions prog acts v w1)"

definition call_method :: "program \<Rightarrow> pid \<Rightarrow> meth \<Rightarrow> cid \<Rightarrow> jsval \<Rightarrow> world \<Rightarrow> completion \<times> world" where
  "call_method prog q m c arg w =
     (case behaviour prog m c arg w of
        Behaviour acts ret \<Rightarrow>
          (case run_actions prog acts Undefined (emit (Call q m c) w) of
             (Abrupt x, w1) \<Rightarrow> (Abrupt x, emit (Throws q x) w1)
           | (Normal lst, w1) \<Rightarrow>
               (case ret of
                  RetUndefined \<Rightarrow> (Normal Undefined, emit (Return q Undefined) w1)
                | RetThrow \<Rightarrow> (Abrupt (Str ''Error''), emit (Throws q (Str ''Error'')) w1)
                | RetExternal \<Rightarrow>
                    (let (r, w2) = newPromise Pending w1
                     in (Normal (Promise r),
                         emit (Return q (Promise r)) (w2\<lparr>externals := r # externals w2\<rparr>)))
                | RetLast \<Rightarrow> (Normal lst, emit (Return q lst) w1))))"

subsection \<open>Scene: the unresolved-setup queue\<close>

definition onComponentCreated :: "cid \<Rightarrow> jsval \<Rightarrow> world \<Rightarrow> world" where
  "onComponentCreated cmp descr w =
     emit (Enqueue cmp) (w\<lparr>compDescr := AList.update cmp descr (compDescr w)\<rparr>)"

text \<open>
  The callback that \<open>setupMissing\<close> passes to \<open>this.compDescr.forEach\<close>, as a function
  of the array \<open>p\<close> and the state.
\<close>

definition setupMissing_callback :: "cid \<times> jsval \<Rightarrow> jsval list \<times> world \<Rightarrow> jsval list \<times> world" where
  "setupMissing_callback cd acc =
     (let (p0, wa) = Promise_resolve Undefined (snd acc);
          (p1, wb) = Promise_then p0 (setupMissing_setup (fst cd) (snd cd)) Thrower wa;
          (pItem, wc) = Promise_then p1 (setupMissing_delete (fst cd)) Thrower wb
      in (fst acc @ [Promise pItem], wc))"

definition setupMissing :: "world \<Rightarrow> pid \<times> world" where
  "setupMissing w =
     (let (p, w1) = fold setupMissing_callback (compDescr w) ([], w)
      in Promise_all p w1)"

definition refreshLoop :: "world \<Rightarrow> jsval \<times> world" where
  "refreshLoop w =
     (if length (compDescr w) > 0 then (let (p, w1) = setupMissing w in (Promise p, w1))
      else (Null, w))"

definition refresh :: "world \<Rightarrow> jsval \<times> world" where
  "refresh w =
     (case refreshLoop w of
        (Promise p, w1) \<Rightarrow> (let (p', w2) = Promise_then p refresh_again Thrower w1 in (Promise p', w2))
      | (v, w1) \<Rightarrow> (v, w1))"

subsection \<open>Scene.walk and the callbacks of the frame systems\<close>

text \<open>
  \<open>walkFn\<close> of the display system and of the logic system: \<open>entity.walkComponent\<close> is
  \<open>this.components.forEach\<close>, and the callback pushes the component on the arrays. They
  return \<open>Promise.resolve()\<close>.
\<close>

definition push :: "nat \<Rightarrow> cid \<Rightarrow> world \<Rightarrow> world" where
  "push a c w = w\<lparr>arrays := (arrays w)(a := arrays w a @ [c])\<rparr>"

definition Display_walkFn_callback :: "nat \<Rightarrow> nat \<Rightarrow> string \<times> cid \<Rightarrow> world \<Rightarrow> world" where
  "Display_walkFn_callback displayComp cameraComp tc w =
     (let cmp = snd tc;
          w1 = (if hasDisplay (comps w cmp) \<and> enabled (comps w cmp) then push displayComp cmp w else w)
      in if hasRender (comps w1 cmp) \<and> enabled (comps w1 cmp) then push cameraComp cmp w1 else w1)"

definition Display_walkFn :: "nat \<Rightarrow> nat \<Rightarrow> ref \<Rightarrow> world \<Rightarrow> pid \<times> world" where
  "Display_walkFn displayComp cameraComp entity w =
     Promise_resolve Undefined
       (fold (Display_walkFn_callback displayComp cameraComp) (components (entities w entity)) w)"

definition Logic_walkFn_callback :: "nat \<Rightarrow> string \<times> cid \<Rightarrow> world \<Rightarrow> world" where
  "Logic_walkFn_callback cs tc w =
     (let cmp = snd tc
      in if hasUpdate (comps w cmp) \<and> enabled (comps w cmp) then push cs cmp w else w)"

definition Logic_walkFn :: "nat \<Rightarrow> ref \<Rightarrow> world \<Rightarrow> pid \<times> world" where
  "Logic_walkFn cs entity w =
     Promise_resolve Undefined
       (fold (Logic_walkFn_callback cs) (components (entities w entity)) w)"

text \<open>The call \<open>fn(c, k)\<close> of a walk callback; both ignore \<open>k\<close>.\<close>

definition call_walkFn :: "walkFn \<Rightarrow> ref \<Rightarrow> string \<Rightarrow> world \<Rightarrow> pid \<times> world" where
  "call_walkFn fn c k w =
     (case fn of
        Display_walkIterFn displayComp cameraComp \<Rightarrow> Display_walkFn displayComp cameraComp c w
      | Logic_walkIterFn cs \<Rightarrow> Logic_walkFn cs c w)"

text \<open>
  \<open>Scene.walkRecursive\<close>. The callback it passes to \<open>walkChildren\<close> is
  \<open>(c, k) => { p = p.then(() => fn(c, k)).then(() => this.walkRecursive(fn, c, k,
  onlyActive)); }\<close>, a function of the variable \<open>p\<close> and the state. The call only
  chains handlers: \<open>fn\<close> and the recursive calls run in later jobs, on the state as it
  is then, and other jobs and calls may come between two of them. (Section
  \<open>Scene traversals\<close> describes the visits of one walk of a tree that does not change,
  as one sequential computation.)
\<close>

definition walkRecursive_callback :: "walkFn \<Rightarrow> bool \<Rightarrow> ref \<times> string \<Rightarrow> pid \<times> world \<Rightarrow> pid \<times> world" where
  "walkRecursive_callback fn onlyActive ck pw =
     (let (p1, w1) = Promise_then (fst pw) (walkRecursive_fn fn (fst ck) (snd ck)) Thrower (snd pw)
      in Promise_then p1 (walkRecursive_rec fn (fst ck) (snd ck) onlyActive) Thrower w1)"

definition Scene_walkRecursive :: "walkFn \<Rightarrow> ref \<Rightarrow> string \<Rightarrow> bool \<Rightarrow> world \<Rightarrow> pid \<times> world" where
  "Scene_walkRecursive fn entity nm onlyActive w =
     (let (p, w1) = Promise_resolve Undefined w
      in if onlyActive \<and> \<not> active (entities w1 entity) then (p, w1)
         else fold (walkRecursive_callback fn onlyActive) (walkChildren entity (entities w1)) (p, w1))"

definition Scene_walk :: "walkFn \<Rightarrow> bool \<Rightarrow> world \<Rightarrow> pid \<times> world" where
  "Scene_walk fn onlyActive w = Scene_walkRecursive fn (sceneRoot w) ''(root)'' onlyActive w"

subsection \<open>The handlers and the jobs\<close>

text \<open>
  The callbacks \<open>(c) => { p = p.then(() => c.display(dT)); }\<close> and
  \<open>(c) => { p = p.then(() => c.render(dT)); }\<close> of \<open>DisplaySystem.iterate\<close>, as a
  function of the variable \<open>p\<close> and the state; \<open>h\<close> is \<open>Display_display\<close> or
  \<open>Display_render\<close>.
\<close>

definition chain_call :: "(cid \<Rightarrow> jsval \<Rightarrow> handler) \<Rightarrow> jsval \<Rightarrow> cid \<Rightarrow> pid \<times> world \<Rightarrow> pid \<times> world" where
  "chain_call h dT c pw = Promise_then (fst pw) (h c dT) Thrower (snd pw)"

text \<open>
  The loop of \<open>LogicSystem.iterate\<close> that calls \<open>update\<close> on every collected
  component and pushes the results; an exception ends it.
\<close>

fun Logic_calls ::
  "program \<Rightarrow> pid \<Rightarrow> cid list \<Rightarrow> jsval \<Rightarrow> jsval list \<Rightarrow> world \<Rightarrow> (jsval + jsval list) \<times> world" where
  "Logic_calls prog q [] timing p w = (Inr p, w)"
| "Logic_calls prog q (c # cs) timing p w =
     (case call_method prog q Update c timing w of
        (Abrupt x, w1) \<Rightarrow> (Inl x, w1)
      | (Normal v, w1) \<Rightarrow> Logic_calls prog q cs timing (p @ [v]) w1)"

text \<open>
  \<open>run_handler prog h arg q\<close> calls handler \<open>h\<close> with argument \<open>arg\<close>; \<open>q\<close> is the
  promise that the result of the handler resolves (it only tags the events of the trace).
  The callbacks of the frame systems read their arrays when they run.
\<close>

definition run_handler :: "program \<Rightarrow> handler \<Rightarrow> jsval \<Rightarrow> pid \<Rightarrow> world \<Rightarrow> completion \<times> world" where
  "run_handler prog h arg q w =
     (case h of
        addComponent_create c d \<Rightarrow> call_method prog q Create c d w
      | addComponent_created c d \<Rightarrow> (Normal (Component c), onComponentCreated c d w)
      | setupMissing_setup c d \<Rightarrow> call_method prog q Setup c d w
      | setupMissing_delete c \<Rightarrow> (Normal Undefined, w\<lparr>compDescr := AList.delete c (compDescr w)\<rparr>)
      | refresh_again \<Rightarrow> (Normal Undefined, snd (refresh w))
      | SceneMgr_refresh \<Rightarrow> (let (v, w1) = refresh w in (Normal v, w1))
      | walkRecursive_fn fn c k \<Rightarrow>
          (let (p, w1) = call_walkFn fn c k (emit (Visit q c k) w)
           in (Normal (Promise p), emit (Return q (Promise p)) w1))
      | walkRecursive_rec fn c k onlyActive \<Rightarrow>
          (let (p, w1) = Scene_walkRecursive fn c k onlyActive (emit (Descend q c k) w)
           in (Normal (Promise p), emit (Return q (Promise p)) w1))
      | Display_calls p0 displayComp cameraComp dT \<Rightarrow>
          (let (p1, w1) = fold (chain_call Display_display dT) (arrays w displayComp) (p0, w);
               (p2, w2) = fold (chain_call Display_render dT) (arrays w1 cameraComp) (p1, w1)
           in (Normal (Promise p2), w2))
      | Display_display c dT \<Rightarrow> call_method prog q Display c dT w
      | Display_render c dT \<Rightarrow> call_method prog q Render c dT w
      | Logic_updates cs timing \<Rightarrow>
          (case Logic_calls prog q (arrays w cs) timing [] w of
             (Inl x, w1) \<Rightarrow> (Abrupt x, w1)
           | (Inr p, w1) \<Rightarrow> (let (r, w2) = Promise_all p w1 in (Normal (Promise r), w2)))
      | ResolveFn p \<Rightarrow> (Normal Undefined, resolveFunction p arg w)
      | RejectFn p \<Rightarrow> (Normal Undefined, rejectFunction p arg w)
      | ResolveElement a i \<Rightarrow>
          (let r = alls w a;
               vals = (elements r)[i := arg];
               n = remaining r - 1;
               w1 = w\<lparr>alls := (alls w)(a := r\<lparr>elements := vals, remaining := n\<rparr>)\<rparr>
           in (Normal Undefined,
               if n = 0 then resolveFunction (capability r) (Array vals) w1 else w1))
      | Thrower \<Rightarrow> (Abrupt arg, w))"

definition run_job :: "program \<Rightarrow> job \<Rightarrow> world \<Rightarrow> world" where
  "run_job prog j w =
     (case j of
        ReactionJob h arg q \<Rightarrow>
          (case run_handler prog h arg q w of
             (Normal v, w1) \<Rightarrow> resolveFunction q v w1
           | (Abrupt x, w1) \<Rightarrow> rejectFunction q x w1)
      | ThenableJob q r \<Rightarrow> snd (Promise_then r (ResolveFn q) (RejectFn q) w))"

text \<open>One job of the queue; \<open>None\<close> when the queue is empty.\<close>

definition step :: "program \<Rightarrow> world \<Rightarrow> world option" where
  "step prog w = (case jobs w of [] \<Rightarrow> None | j # js \<Rightarrow> Some (run_job prog j (w\<lparr>jobs := js\<rparr>)))"

text \<open>At most \<open>n\<close> jobs, until the queue is empty.\<close>

fun run :: "nat \<Rightarrow> program \<Rightarrow> world \<Rightarrow> world" where
  "run 0 prog w = w"
| "run (Suc n) prog w = (case step prog w of None \<Rightarrow> w | Some w1 \<Rightarrow> run n prog w1)"

text \<open>
  The state in which promise \<open>p\<close> is first settled, running at most \<open>n\<close> jobs;
  \<open>None\<close> when \<open>p\<close> is still pending after them or when the queue runs empty.
\<close>

fun run_until_settled :: "nat \<Rightarrow> program \<Rightarrow> pid \<Rightarrow> world \<Rightarrow> world option" where
  "run_until_settled n prog p w =
     (if promises w p \<noteq> Pending then Some w
      else case n of
             0 \<Rightarrow> None
           | Suc m \<Rightarrow> (case step prog w of None \<Rightarrow> None | Some w1 \<Rightarrow> run_until_settled m prog p w1))"

subsection \<open>The frame systems\<close>

definition SceneMgrSystem_iterate :: "world \<Rightarrow> pid \<times> world" where
  "SceneMgrSystem_iterate w =
     (let (p0, w1) = Promise_resolve Undefined w in Promise_then p0 SceneMgr_refresh Thrower w1)"

text \<open>
  \<open>DisplaySystem.iterate(dT)\<close> and \<open>LogicSystem.iterate(dT)\<close>: new empty arrays,
  the walk, and the callback chained on the promise of the walk. \<open>now\<close> is the value
  of \<open>new Date()\<close> in the constructor of \<open>Timing\<close>.
\<close>

definition DisplaySystem_iterate :: "jsval \<Rightarrow> world \<Rightarrow> pid \<times> world" where
  "DisplaySystem_iterate dT w =
     (let displayComp = nextArray w;
          cameraComp = nextArray w + 1;
          w0 = w\<lparr>arrays := (arrays w)(displayComp := [], cameraComp := []),
                 nextArray := nextArray w + 2\<rparr>;
          (p, w1) = Promise_resolve Undefined w0;
          (pw, w2) = Scene_walk (Display_walkIterFn displayComp cameraComp) True w1
      in Promise_then pw (Display_calls p displayComp cameraComp dT) Thrower w2)"

definition LogicSystem_iterate :: "real \<Rightarrow> jsval \<Rightarrow> world \<Rightarrow> pid \<times> world" where
  "LogicSystem_iterate dT now w =
     (let timing = Array [Number dT, Number (real (frameCount w)), now];
          cs = nextArray w;
          w0 = w\<lparr>frameCount := frameCount w + 1,
                 arrays := (arrays w)(cs := []), nextArray := nextArray w + 1\<rparr>;
          (pw, w1) = Scene_walk (Logic_walkIterFn cs) True w0
      in Promise_then pw (Logic_updates cs timing) Thrower w1)"

subsection \<open>Executions\<close>

text \<open>
  What happens between two jobs: the environment settles a promise of its own (a load
  ends or fails), or a task of the engine calls one of its entry points.
\<close>

datatype action =
    ExtFulfil pid
  | ExtReject pid
  | DoAddComponent ref string jsval
  | DoRefresh
  | DoSceneMgr
  | DoDisplay jsval
  | DoLogic real jsval
  | DoOps "op list"
  | DoSetActive ref bool

definition act :: "program \<Rightarrow> action \<Rightarrow> world \<Rightarrow> world" where
  "act prog a w =
     (case a of
        ExtFulfil p \<Rightarrow>
          (if p \<in> set (externals w)
           then resolveFunction p Undefined (w\<lparr>externals := removeAll p (externals w)\<rparr>)
           else w)
      | ExtReject p \<Rightarrow>
          (if p \<in> set (externals w)
           then rejectFunction p (Str ''Error'') (w\<lparr>externals := removeAll p (externals w)\<rparr>)
           else w)
      | DoAddComponent e t d \<Rightarrow> snd (addComponent prog e t d w)
      | DoRefresh \<Rightarrow> snd (refresh w)
      | DoSceneMgr \<Rightarrow> snd (SceneMgrSystem_iterate w)
      | DoDisplay dT \<Rightarrow> snd (DisplaySystem_iterate dT w)
      | DoLogic dT now \<Rightarrow> snd (LogicSystem_iterate dT now w)
      | DoOps ops \<Rightarrow> w\<lparr>entities := snd (run_ops ops (entities w))\<rparr>
      | DoSetActive e b \<Rightarrow> w\<lparr>entities := setActive e b (entities w)\<rparr>)"

definition initial_world :: world where
  "initial_world =
     \<lparr>entities = fresh_store, sceneRoot = 0,
      comps = (\<lambda>_. \<lparr>owner = 0, enabled = True, ctype = [], hasDisplay = False,
                      hasRender = False, hasUpdate = False\<rparr>),
      nextComp = 0, compDescr = [], frameCount = 0, arrays = (\<lambda>_. []), nextArray = 0,
      promises = (\<lambda>_. Pending), reactions = (\<lambda>_. []), nextPromise = 0,
      alls = (\<lambda>_. \<lparr>elements = [], remaining = 0, capability = 0\<rparr>), nextAll = 0,
      externals = [], jobs = [], trace = []\<rparr>"

text \<open>The states of the executions of a program: jobs and actions in any order.\<close>

inductive reachable :: "program \<Rightarrow> world \<Rightarrow> bool" for prog where
  init: "reachable prog initial_world"
| job: "reachable prog w \<Longrightarrow> step prog w = Some w' \<Longrightarrow> reachable prog w'"
| action: "reachable prog w \<Longrightarrow> reachable prog (act prog a w)"

subsection \<open>Example programs\<close>

text \<open>
  A player whose \<open>setup\<close> is \<open>return this.owner.addComponent('Sprite', ...)\<close>, as
  \<open>PlayerComponent.setup\<close> ends; every other method returns \<open>undefined\<close>. Component 0
  is the player, on entity 1, and component 1 is the sprite that its \<open>setup\<close> adds.
\<close>

definition player_program :: program where
  "player_program =
     \<lparr>creator = (\<lambda>t. Some (False, False, False)),
      behaviour = (\<lambda>m c arg w.
         if m = Setup \<and> c = 0 then Behaviour [UAddComponent 1 ''Sprite'' (Object 1)] RetLast
         else Behaviour [] RetUndefined)\<rparr>"

text \<open>The state once the player has been added and created: it waits for its \<open>setup\<close>.\<close>

definition player_created :: world where
  "player_created =
     run 10 player_program (act player_program (DoAddComponent 1 ''Player'' (Object 0)) initial_world)"

text \<open>
  The state in which the promise that \<open>refresh()\<close> returns in \<open>player_created\<close> is
  first settled.
\<close>

definition refresh_settled :: "world option" where
  "refresh_settled =
     (case refresh player_created of
        (Promise p, w) \<Rightarrow> run_until_settled 20 player_program p w
      | _ \<Rightarrow> None)"

definition setup_calls :: "event list \<Rightarrow> event list" where
  "setup_calls t = filter (\<lambda>e. case e of Call q m c \<Rightarrow> m = Setup | _ \<Rightarrow> False) t"

text \<open>
  Components whose \<open>display\<close>, \<open>render\<close> and \<open>update\<close> each return a promise that is
  settled later (a load); types \<open>D1\<close> and \<open>D2\<close> define \<open>display\<close> and \<open>update\<close>, type
  \<open>C\<close> defines \<open>render\<close>. Entity 1, a child of the root, gets components 0 and 1 of
  types \<open>D1\<close> and \<open>D2\<close> and component 2 of type \<open>C\<close>.
\<close>

definition loading_program :: program where
  "loading_program =
     \<lparr>creator = (\<lambda>t. if t = ''C'' then Some (False, True, False) else Some (True, False, True)),
      behaviour = (\<lambda>m c arg w.
         if m = Display \<or> m = Render \<or> m = Update then Behaviour [] RetExternal
         else Behaviour [] RetUndefined)\<rparr>"

definition loading_scene :: world where
  "loading_scene =
     run 30 loading_program
       (fold (act loading_program)
          [DoOps [AddChild 0 ''a'' 1], DoAddComponent 1 ''D1'' (Object 0),
           DoAddComponent 1 ''D2'' (Object 0), DoAddComponent 1 ''C'' (Object 0)]
          initial_world)"





definition display_then_add :: world where
  "display_then_add =
     run 40 loading_program
       (fold (act loading_program) [DoDisplay (Number 0), DoAddComponent 1 ''D3'' (Object 0)]
          loading_scene)"

text \<open>
  The player program, from \<open>player_created\<close>: \<open>Scene.refresh()\<close> is called and the jobs
  run until none is left. The sprite that the \<open>setup\<close> of the player adds is component 1.
\<close>

definition player_set_up :: world where
  "player_set_up = run 20 player_program (act player_program DoRefresh player_created)"

section \<open>The order of events\<close>

text \<open>
  The handlers that a rejection can run (\<open>onRejected\<close>) are \<open>Thrower\<close> and the
  rejecting functions; every other handler only runs on a fulfilment.
\<close>

definition fulfil_only :: "handler \<Rightarrow> bool" where
  "fulfil_only h \<longleftrightarrow> h \<noteq> Thrower \<and> (\<forall>x. h \<noteq> RejectFn x)"

text \<open>
  The handlers whose body is one call, whose value they return: of a method of a
  component, of the callback \<open>fn\<close> of a walk on an entity, or of \<open>walkRecursive\<close> on an
  entity. \<open>start q i\<close> is the event of the call, in the handler whose result resolves
  \<open>q\<close>. \<open>runs h i\<close>: handler \<open>h\<close> may make the call \<open>i\<close>; the callback of the logic
  system calls \<open>update\<close> on several components.
\<close>

datatype invocation = Method meth cid | Fn ref string | Rec ref string

fun start :: "pid \<Rightarrow> invocation \<Rightarrow> event" where
  "start q (Method m c) = Call q m c"
| "start q (Fn c k) = Visit q c k"
| "start q (Rec c k) = Descend q c k"

fun invoked :: "handler \<Rightarrow> invocation option" where
  "invoked (addComponent_create c d) = Some (Method Create c)"
| "invoked (setupMissing_setup c d) = Some (Method Setup c)"
| "invoked (Display_display c dT) = Some (Method Display c)"
| "invoked (Display_render c dT) = Some (Method Render c)"
| "invoked (walkRecursive_fn fn c k) = Some (Fn c k)"
| "invoked (walkRecursive_rec fn c k onlyActive) = Some (Rec c k)"
| "invoked h = None"

definition runs :: "handler \<Rightarrow> invocation \<Rightarrow> bool" where
  "runs h i \<longleftrightarrow>
     invoked h = Some i \<or> (\<exists>cs t c. h = Logic_updates cs t \<and> i = Method Update c)"

fun is_promise :: "jsval \<Rightarrow> bool" where
  "is_promise (Promise p) = True"
| "is_promise v = False"

text \<open>
  \<open>settled_call T q\<close>: if \<open>q\<close> is the promise of a handler that makes one call, then
  among the events \<open>T\<close> the call has been made and has returned, and a promise that it
  returned has been fulfilled. \<open>adopting T q r\<close>: if \<open>q\<close> is such a promise, the call
  has been made and has returned the promise \<open>r\<close>.
\<close>

definition settled_call :: "event set \<Rightarrow> pid \<Rightarrow> bool" where
  "settled_call T q \<longleftrightarrow>
     (\<forall>p h i. Then p h q \<in> T \<and> invoked h = Some i \<longrightarrow>
        (\<exists>v. start q i \<in> T \<and> Return q v \<in> T \<and> (\<forall>r. v = Promise r \<longrightarrow> Fulfil r \<in> T)))"

definition adopting :: "event set \<Rightarrow> pid \<Rightarrow> pid \<Rightarrow> bool" where
  "adopting T q r \<longleftrightarrow>
     (\<forall>p h i. Then p h q \<in> T \<and> invoked h = Some i \<longrightarrow>
        start q i \<in> T \<and> Return q (Promise r) \<in> T)"

definition unregistered :: "event set \<Rightarrow> pid \<Rightarrow> bool" where
  "unregistered T q \<longleftrightarrow> (\<forall>p h. Then p h q \<notin> T)"

text \<open>
  What must have happened before an event, \<open>T\<close> being the events before it:
  a promise is the result of one \<open>then\<close> only, which comes before its fulfilment, and the
  handler that enqueues a component is chained on the promise of the handler that calls
  its \<open>create\<close>; a method, the callback of a walk or \<open>walkRecursive\<close> is called by
  a handler chained on a promise that has been fulfilled, and \<open>setup\<close> only on a
  component that has been enqueued; a component is
  enqueued by a handler chained on a promise that has been fulfilled; the promise of a
  handler that makes one call is fulfilled only when the call has settled.
\<close>

fun justified :: "event set \<Rightarrow> event \<Rightarrow> bool" where
  "justified T (Then p h q) \<longleftrightarrow>
     unregistered T q \<and> Fulfil q \<notin> T
     \<and> (\<forall>c d. h = addComponent_created c d \<longrightarrow> (\<exists>p0. Then p0 (addComponent_create c d) p \<in> T))"
| "justified T (Call q m c) \<longleftrightarrow>
     (\<exists>p h. Then p h q \<in> T \<and> Fulfil p \<in> T \<and> runs h (Method m c))
     \<and> (m = Setup \<longrightarrow> Enqueue c \<in> T)"
| "justified T (Visit q c k) \<longleftrightarrow> (\<exists>p h. Then p h q \<in> T \<and> Fulfil p \<in> T \<and> runs h (Fn c k))"
| "justified T (Descend q c k) \<longleftrightarrow> (\<exists>p h. Then p h q \<in> T \<and> Fulfil p \<in> T \<and> runs h (Rec c k))"
| "justified T (Enqueue c) \<longleftrightarrow>
     (\<exists>p d q. Then p (addComponent_created c d) q \<in> T \<and> Fulfil p \<in> T)"
| "justified T (Fulfil q) \<longleftrightarrow> settled_call T q"
| "justified T e \<longleftrightarrow> True"

definition ordered :: "event list \<Rightarrow> bool" where
  "ordered t \<longleftrightarrow> (\<forall>i < length t. justified (set (take i t)) (t ! i))"

text \<open>The conditions under which a handler may wait in a reaction or in a job.\<close>

definition handler_ok :: "world \<Rightarrow> handler \<Rightarrow> bool" where
  "handler_ok w h \<longleftrightarrow>
     (\<forall>a i. h = ResolveElement a i \<longrightarrow> a < nextAll w)
     \<and> (\<forall>q. h = ResolveFn q \<longrightarrow> q < nextPromise w)
     \<and> (\<forall>c d. h = setupMissing_setup c d \<longrightarrow> Enqueue c \<in> set (trace w))"

fun job_ok :: "world \<Rightarrow> job \<Rightarrow> bool" where
  "job_ok w (ReactionJob h v q) \<longleftrightarrow>
     \<not> is_promise v \<and> handler_ok w h \<and> q < nextPromise w
     \<and> (fulfil_only h \<longrightarrow> (\<exists>p. Then p h q \<in> set (trace w) \<and> Fulfil p \<in> set (trace w)))
     \<and> (\<forall>x. h = RejectFn x \<longrightarrow> (\<forall>p h0. Then p h0 q \<in> set (trace w) \<longrightarrow> invoked h0 = None))
     \<and> (\<forall>q'. h = ResolveFn q' \<longrightarrow> settled_call (set (trace w)) q')"
| "job_ok w (ThenableJob q r) \<longleftrightarrow> q < nextPromise w \<and> adopting (set (trace w)) q r"

definition reaction_ok :: "world \<Rightarrow> pid \<Rightarrow> reaction \<Rightarrow> bool" where
  "reaction_ok w p r \<longleftrightarrow>
     Then p (onFulfilled r) (derived r) \<in> set (trace w)
     \<and> fulfil_only (onFulfilled r) \<and> \<not> fulfil_only (onRejected r)
     \<and> (onRejected r = Thrower \<or> invoked (onFulfilled r) = None)
     \<and> handler_ok w (onFulfilled r)
     \<and> (\<forall>q. onFulfilled r = ResolveFn q \<longrightarrow> adopting (set (trace w)) q p)"

text \<open>
  \<open>extends w w'\<close>: from \<open>w\<close> to \<open>w'\<close> events were added and promises allocated, and
  every \<open>then\<close> added gave a promise that was not allocated in \<open>w\<close>.
\<close>

definition extends :: "world \<Rightarrow> world \<Rightarrow> bool" where
  "extends w w' \<longleftrightarrow>
     set (trace w) \<subseteq> set (trace w')
     \<and> nextPromise w \<le> nextPromise w' \<and> nextAll w \<le> nextAll w'
     \<and> (\<forall>p h q. Then p h q \<in> set (trace w') \<longrightarrow>
           Then p h q \<in> set (trace w) \<or> nextPromise w \<le> q)"

text \<open>The invariant of the executions.\<close>

definition inv :: "world \<Rightarrow> bool" where
  "inv w \<longleftrightarrow>
     ordered (trace w)
     \<and> (\<forall>p h q. Then p h q \<in> set (trace w) \<longrightarrow> q < nextPromise w)
     \<and> (\<forall>q. Fulfil q \<in> set (trace w) \<longrightarrow> q < nextPromise w)
     \<and> (\<forall>p v. promises w p = Fulfilled v \<longrightarrow> Fulfil p \<in> set (trace w) \<and> \<not> is_promise v)
     \<and> (\<forall>p v. promises w p = Rejected v \<longrightarrow> \<not> is_promise v)
     \<and> (\<forall>j \<in> set (jobs w). job_ok w j)
     \<and> (\<forall>p. \<forall>r \<in> set (reactions w p). reaction_ok w p r)
     \<and> (\<forall>p \<in> set (externals w). p < nextPromise w \<and> unregistered (set (trace w)) p)
     \<and> (\<forall>a < nextAll w. capability (alls w a) < nextPromise w
                          \<and> unregistered (set (trace w)) (capability (alls w a)))
     \<and> (\<forall>cd \<in> set (compDescr w). Enqueue (fst cd) \<in> set (trace w))"

text \<open>
  \<open>created t c\<close>: among the events \<open>t\<close>, \<open>create\<close> has been called on \<open>c\<close> and has
  returned, and a promise that it returned has been fulfilled.
\<close>

definition created :: "event list \<Rightarrow> cid \<Rightarrow> bool" where
  "created t c \<longleftrightarrow>
     (\<exists>q v. Call q Create c \<in> set t \<and> Return q v \<in> set t
            \<and> (\<forall>r. v = Promise r \<longrightarrow> Fulfil r \<in> set t))"

text \<open>\<open>no_call T q\<close>: \<open>q\<close> is not the promise of a handler that makes one call.\<close>

definition no_call :: "event set \<Rightarrow> pid \<Rightarrow> bool" where
  "no_call T q \<longleftrightarrow> (\<forall>p h. Then p h q \<in> T \<longrightarrow> invoked h = None)"

text \<open>What a handler leaves: the invariant, and a result that may resolve its promise.\<close>

definition resolvable :: "event set \<Rightarrow> pid \<Rightarrow> jsval \<Rightarrow> bool" where
  "resolvable T q v \<longleftrightarrow> (case v of Promise r \<Rightarrow> adopting T q r | _ \<Rightarrow> settled_call T q)"

definition handler_post :: "pid \<Rightarrow> world \<Rightarrow> completion \<times> world \<Rightarrow> bool" where
  "handler_post q w rw \<longleftrightarrow>
     inv (snd rw) \<and> extends w (snd rw)
     \<and> (\<forall>v. fst rw = Normal v \<longrightarrow> resolvable (set (trace (snd rw))) q v)
     \<and> (\<forall>x. fst rw = Abrupt x \<longrightarrow> \<not> is_promise x)"

subsection \<open>The chains of the walk and of the display system\<close>


text \<open>The handlers that \<open>walkRecursive\<close> chains for the children \<open>cks\<close> of an entity.\<close>

definition walk_handlers :: "walkFn \<Rightarrow> bool \<Rightarrow> (ref \<times> string) list \<Rightarrow> handler list" where
  "walk_handlers fn onlyActive cks =
     concat (map (\<lambda>ck. [walkRecursive_fn fn (fst ck) (snd ck),
                         walkRecursive_rec fn (fst ck) (snd ck) onlyActive]) cks)"

section \<open>The representation invariant\<close>

lemma entity_inv_fresh: "entity_inv fresh_store"
  by (simp add: entity_inv_def fresh_store_def new_Entity_def)

lemma addChild_inv:
  assumes "entity_inv s" "addChild e n c s = (r, s')"
  shows "entity_inv s'"
proof (cases "parent (s c) = None")
  case False
  with assms show ?thesis by (simp add: addChild_def)
next
  case True
  have notin: "\<And>p. c \<notin> child ` set (children (s p))"
    using assms(1) True unfolding entity_inv_def by (metis option.distinct(1))
  from True assms(2) have s': "s' = (let e0 = s e;
            childEntry = \<lparr>name = n, order = nextChildOrder e0, child = c\<rparr>;
            s1 = s(e := e0\<lparr>nextChildOrder := nextChildOrder e0 + 1,
                             children := children e0 @ [childEntry],
                             childrenByName := (childrenByName e0)(n \<mapsto> childEntry),
                             childrenByChild := (childrenByChild e0)(c \<mapsto> childEntry)\<rparr>)
        in s1(c := (s1 c)\<lparr>parent := Some e\<rparr>))"
    by (simp add: addChild_def Let_def)
  show ?thesis
    unfolding entity_inv_def
  proof (intro allI conjI)
    fix p
    show "sorted_wrt (<) (map order (children (s' p)))"
      using assms(1) unfolding entity_inv_def s' Let_def
      by (auto simp: sorted_wrt_append)
    show "\<forall>ce \<in> set (children (s' p)). order ce < nextChildOrder (s' p)"
      using assms(1) unfolding entity_inv_def s' Let_def
      by (auto simp: less_Suc_eq)
    show "distinct (map child (children (s' p)))"
      using assms(1) notin unfolding entity_inv_def s' Let_def
      by auto
    show "\<And>c' ce. childrenByChild (s' p) c' = Some ce \<longleftrightarrow> ce \<in> set (children (s' p)) \<and> child ce = c'"
      using assms(1) notin[of p] unfolding entity_inv_def s' Let_def
      by (auto simp: image_iff)
    show "\<And>c'. parent (s' c') = Some p \<longleftrightarrow> c' \<in> child ` set (children (s' p))"
      using assms(1) notin[of p] True unfolding entity_inv_def s' Let_def
      by (auto simp: image_iff)
  qed
qed


lemma sorted_wrt_map_remove1:
  "sorted_wrt (<) (map f xs) \<Longrightarrow> sorted_wrt (<) (map f (remove1 x xs))"
  by (induction xs) (auto dest: notin_set_remove1)

lemma removeChild_inv:
  assumes "entity_inv s" "removeChild e c s = (r, s')"
  shows "entity_inv s'"
proof (cases "parent (s c) = Some e")
  case False
  with assms show ?thesis by (simp add: removeChild_def)
next
  case True
  then have "c \<in> child ` set (children (s e))"
    using assms(1) unfolding entity_inv_def by blast
  then obtain ce where ce: "ce \<in> set (children (s e))" "child ce = c" by auto
  then have cbc: "childrenByChild (s e) c = Some ce"
    using assms(1) unfolding entity_inv_def by blast
  have uniq: "\<And>x. x \<in> set (children (s e)) \<Longrightarrow> child x = c \<Longrightarrow> x = ce"
    using assms(1) ce unfolding entity_inv_def by (metis option.inject)
  have dist: "distinct (children (s e))"
    using assms(1) unfolding entity_inv_def by (metis distinct_map)
  define e3 where "e3 = (let e0 = s e;
                 e1 = e0\<lparr>childrenByChild := (childrenByChild e0)(c := None)\<rparr>;
                 e2 = (if childrenByName e1 (name ce) = Some ce
                       then e1\<lparr>childrenByName := (childrenByName e1)(name ce := None)\<rparr>
                       else e1)
                 in e2\<lparr>children := remove1 ce (children e2)\<rparr>)"
  from True cbc assms(2) have s': "s' = (let s1 = s(e := e3) in s1(c := (s1 c)\<lparr>parent := None\<rparr>))"
    by (auto simp: removeChild_def Let_def e3_def)
  have ch3: "children e3 = remove1 ce (children (s e))"
    and nx3: "nextChildOrder e3 = nextChildOrder (s e)"
    and cb3: "childrenByChild e3 = (childrenByChild (s e))(c := None)"
    and pa3: "parent e3 = parent (s e)"
    by (simp_all add: e3_def Let_def)
  have ch: "\<And>p. children (s' p) = (if p = e then remove1 ce (children (s e)) else children (s p))"
    and nx: "\<And>p. nextChildOrder (s' p) = nextChildOrder (s p)"
    and cb: "\<And>p. childrenByChild (s' p) = (if p = e then (childrenByChild (s e))(c := None) else childrenByChild (s p))"
    and pa: "\<And>p. parent (s' p) = (if p = c then None else parent (s p))"
    by (simp_all add: s' Let_def ch3 nx3 cb3 pa3)
  have set_rm: "set (remove1 ce (children (s e))) = set (children (s e)) - {ce}"
    using dist by simp
  have I1: "\<And>p. sorted_wrt (<) (map order (children (s p)))"
    using assms(1) unfolding entity_inv_def by simp
  have I2: "\<And>p x. x \<in> set (children (s p)) \<Longrightarrow> order x < nextChildOrder (s p)"
    using assms(1) unfolding entity_inv_def by simp
  have I3: "\<And>p. distinct (map child (children (s p)))"
    using assms(1) unfolding entity_inv_def by simp
  have I4: "\<And>p c' x. childrenByChild (s p) c' = Some x \<longleftrightarrow> x \<in> set (children (s p)) \<and> child x = c'"
    using assms(1) unfolding entity_inv_def by simp
  have I5: "\<And>p c'. parent (s c') = Some p \<longleftrightarrow> c' \<in> child ` set (children (s p))"
    using assms(1) unfolding entity_inv_def by simp
  show ?thesis
    unfolding entity_inv_def
  proof (intro allI conjI)
    fix p
    show "sorted_wrt (<) (map order (children (s' p)))"
      using I1 [of p] I1 [of e] unfolding ch
      by (auto intro: sorted_wrt_map_remove1)
    show "\<forall>x \<in> set (children (s' p)). order x < nextChildOrder (s' p)"
      using I2 [of _ p] I2 [of _ e] unfolding ch nx
      by (auto simp: set_rm)
    show "distinct (map child (children (s' p)))"
      using I3 [of p] I3 [of e] unfolding ch
      by (auto simp: distinct_map set_rm intro: distinct_remove1 elim: inj_on_subset)
    show "\<And>c' x. childrenByChild (s' p) c' = Some x \<longleftrightarrow> x \<in> set (children (s' p)) \<and> child x = c'"
    proof -
      fix c' x
      show "childrenByChild (s' p) c' = Some x \<longleftrightarrow> x \<in> set (children (s' p)) \<and> child x = c'"
      proof (cases "p = e")
        case False
        then show ?thesis by (simp add: ch cb I4)
      next
        case True
        show ?thesis
        proof (cases "c' = c")
          case True
          then show ?thesis using \<open>p = e\<close> uniq [of x] by (auto simp: ch cb set_rm)
        next
          case False
          then have "x \<in> set (children (s e)) \<and> child x = c' \<longleftrightarrow>
                     x \<in> set (children (s e)) - {ce} \<and> child x = c'"
            using ce by auto
          then show ?thesis using \<open>p = e\<close> False by (simp add: ch cb set_rm I4)
        qed
      qed
    qed
    show "\<And>c'. parent (s' c') = Some p \<longleftrightarrow> c' \<in> child ` set (children (s' p))"
    proof -
      fix c'
      show "parent (s' c') = Some p \<longleftrightarrow> c' \<in> child ` set (children (s' p))"
      proof (cases "c' = c")
        case True
        have "c \<notin> child ` set (children (s' p))"
        proof (cases "p = e")
          case True
          then show ?thesis using uniq by (auto simp: ch set_rm)
        next
          case False
          have "parent (s c) \<noteq> Some p" using \<open>parent (s c) = Some e\<close> False by simp
          then show ?thesis using I5 [of c p] False unfolding ch by auto
        qed
        then show ?thesis using True by (simp add: pa)
      next
        case False
        have "c' \<in> child ` set (children (s e)) \<longleftrightarrow> c' \<in> child ` (set (children (s e)) - {ce})"
          using False ce by auto
        then show ?thesis using I5 [of c' p] False
          by (auto simp: ch pa set_rm)
      qed
    qed
  qed
qed

lemma walkChildren_kids:
  "entity_inv s \<Longrightarrow> walkChildren e s = kids s e"
proof -
  assume "entity_inv s"
  then have "sorted_wrt (<) (map order (children (s e)))" by (simp add: entity_inv_def)
  then have "sorted (map order (children (s e)))"
    by (simp add: strict_sorted_iff)
  then have "sort_key order (children (s e)) = children (s e)"
    by (rule sort_key_id_if_sorted)
  then show ?thesis by (simp add: walkChildren_def kids_def)
qed


lemma addChild_kids:
  "addChild e n c s = (r, s') \<Longrightarrow>
     kids s' p = (if r = None \<and> p = e then kids s e @ [(c, n)] else kids s p)"
  by (auto simp: addChild_def kids_def Let_def split: if_splits)

lemma remove1_filter_child:
  "distinct (map child xs) \<Longrightarrow> ce \<in> set xs \<Longrightarrow>
     remove1 ce xs = filter (\<lambda>x. child x \<noteq> child ce) xs"
proof (induction xs)
  case Nil
  then show ?case by simp
next
  case (Cons x xs)
  show ?case
  proof (cases "x = ce")
    case True
    with Cons.prems have "\<forall>y \<in> set xs. child y \<noteq> child ce" by (auto simp: image_iff)
    then have "filter (\<lambda>x. child x \<noteq> child ce) xs = xs" by simp
    with True show ?thesis by simp
  next
    case False
    with Cons.prems have "ce \<in> set xs" "child x \<noteq> child ce" by auto
    with Cons show ?thesis using False by simp
  qed
qed

lemma removeChild_kids:
  assumes "entity_inv s" "removeChild e c s = (r, s')"
  shows "kids s' p = (if r = None \<and> p = e then filter (\<lambda>(x, _). x \<noteq> c) (kids s e) else kids s p)"
proof (cases "parent (s c) = Some e")
  case False
  with assms(2) show ?thesis by (auto simp: removeChild_def)
next
  case True
  then have "c \<in> child ` set (children (s e))"
    using assms(1) unfolding entity_inv_def by blast
  then obtain ce where ce: "ce \<in> set (children (s e))" "child ce = c" by auto
  then have cbc: "childrenByChild (s e) c = Some ce"
    using assms(1) unfolding entity_inv_def by blast
  have dist: "distinct (map child (children (s e)))"
    using assms(1) unfolding entity_inv_def by simp
  from True cbc assms(2) have r: "r = None"
    by (auto simp: removeChild_def Let_def)
  from True cbc assms(2)
  have ch: "children (s' p) = (if p = e then remove1 ce (children (s e)) else children (s p))"
    by (auto simp: removeChild_def Let_def)
  have "map (\<lambda>v. (child v, name v)) (remove1 ce (children (s e)))
          = filter (\<lambda>(x, _). x \<noteq> c) (map (\<lambda>v. (child v, name v)) (children (s e)))"
    using remove1_filter_child [OF dist ce(1)] ce(2)
    by (simp add: filter_map comp_def)
  then show ?thesis by (simp add: kids_def ch r)
qed

lemma exec_op_inv:
  "entity_inv s \<Longrightarrow> exec_op x s = (r, s') \<Longrightarrow> entity_inv s'"
  by (cases x) (auto intro: addChild_inv removeChild_inv)

lemma exec_op_kids:
  "entity_inv s \<Longrightarrow> exec_op x s = (r, s') \<Longrightarrow>
     kids s' e = record_call e (kids s e) (x, r = None)"
  by (cases x) (auto simp: addChild_kids removeChild_kids)

lemma run_ops_kids:
  "entity_inv s0 \<Longrightarrow> run_ops ops s0 = (h, s) \<Longrightarrow>
     entity_inv s \<and> kids s e = foldl (record_call e) (kids s0 e) h"
proof (induction ops arbitrary: s0 h s)
  case Nil
  then show ?case by simp
next
  case (Cons x xs)
  obtain r s1 where x: "exec_op x s0 = (r, s1)" by (cases "exec_op x s0")
  obtain h' s2 where xs: "run_ops xs s1 = (h', s2)" by (cases "run_ops xs s1")
  from Cons.prems(2) x xs have h: "h = (x, r = None) # h'" and s: "s = s2"
    by simp_all
  have inv1: "entity_inv s1" using exec_op_inv [OF Cons.prems(1) x] .
  from Cons.IH [OF inv1 xs] exec_op_kids [OF Cons.prems(1) x, of e]
  show ?case by (simp add: h s)
qed

section \<open>The traversals\<close>

lemma fold_walk_callback_None [simp]: "fold (walk_callback fn rec) ks None = None"
  by (induction ks) (simp_all add: walk_callback_def)

lemma fold_walk_callback_Inl [simp]:
  "fold (walk_callback fn rec) ks (Some (vs, Inl e)) = Some (vs, Inl e)"
  by (induction ks) (simp_all add: walk_callback_def)

lemma walk_callback_Inr:
  "walk_callback fn rec (c, k) (Some (vs, Inr a)) =
     (case fn c k a of
        Inl e \<Rightarrow> Some (vs @ [(c, k)], Inl e)
      | Inr a' \<Rightarrow> rec c k (vs @ [(c, k)], a'))"
  by (simp add: walk_callback_def split: sum.splits)

text \<open>A general rule for the loop over the children: an invariant \<open>I\<close> on the processed children.\<close>

lemma fold_walk_callback_rule:
  assumes "fold (walk_callback fn rec) ks (Some (vs0, Inr a0)) = Some (vs, out)"
    and "I [] vs0 (Inr a0)"
    and step: "\<And>c k done vs1 a1 a2 vs2 out2. (c, k) \<in> set ks \<Longrightarrow> I done vs1 (Inr a1) \<Longrightarrow>
                fn c k a1 = Inr a2 \<Longrightarrow> rec c k (vs1 @ [(c, k)], a2) = Some (vs2, out2) \<Longrightarrow>
                I (done @ [(c, k)]) vs2 out2"
    and fail: "\<And>c k done vs1 a1 e. (c, k) \<in> set ks \<Longrightarrow> I done vs1 (Inr a1) \<Longrightarrow>
                fn c k a1 = Inl e \<Longrightarrow> I (done @ [(c, k)]) (vs1 @ [(c, k)]) (Inl e)"
  shows "\<exists>done. I done vs out \<and> (case out of Inr _ \<Rightarrow> done = ks | Inl _ \<Rightarrow> True)"
  using assms
proof (induction ks arbitrary: vs0 a0 I)
  case Nil
  then show ?case by auto
next
  case (Cons ck ks)
  obtain c k where ck: "ck = (c, k)" by (cases ck)
  show ?case
  proof (cases "fn c k a0")
    case (Inl e)
    with Cons.prems(1) ck have "vs = vs0 @ [(c, k)]" "out = Inl e"
      by (simp_all add: walk_callback_Inr)
    moreover have "I ([] @ [(c, k)]) (vs0 @ [(c, k)]) (Inl e)"
      using Cons.prems(4) [of c k "[]" vs0 a0 e] Cons.prems(2) Inl ck by simp
    ultimately show ?thesis by auto
  next
    case (Inr a2)
    show ?thesis
    proof (cases "rec c k (vs0 @ [(c, k)], a2)")
      case None
      with Cons.prems(1) ck Inr show ?thesis by (simp add: walk_callback_Inr)
    next
      case (Some r)
      obtain vs2 out2 where r: "r = (vs2, out2)" by (cases r)
      have I2: "I [(c, k)] vs2 out2"
        using Cons.prems(3) [of c k "[]" vs0 a0 a2 vs2 out2] Cons.prems(2) Inr Some r ck by simp
      show ?thesis
      proof (cases out2)
        case (Inl e)
        with Cons.prems(1) ck Inr Some r have "vs = vs2" "out = Inl e"
          by (simp_all add: walk_callback_Inr)
        with I2 Inl show ?thesis by auto
      next
        case (Inr a3)
        with Cons.prems(1) ck \<open>fn c k a0 = Inr a2\<close> Some r
        have f: "fold (walk_callback fn rec) ks (Some (vs2, Inr a3)) = Some (vs, out)"
          by (simp add: walk_callback_Inr)
        have "\<exists>done. (\<lambda>d v. I ((c, k) # d) v) done vs out \<and> (case out of Inr _ \<Rightarrow> done = ks | Inl _ \<Rightarrow> True)"
        proof (rule Cons.IH [OF f])
          show "I ((c, k) # []) vs2 (Inr a3)" using I2 Inr by simp
        next
          fix c' k' d vs1 a1 a2' vs2' out2'
          assume "(c', k') \<in> set ks" "I ((c, k) # d) vs1 (Inr a1)" "fn c' k' a1 = Inr a2'"
            "rec c' k' (vs1 @ [(c', k')], a2') = Some (vs2', out2')"
          then show "I ((c, k) # d @ [(c', k')]) vs2' out2'"
            using Cons.prems(3) [of c' k' "(c, k) # d" vs1 a1 a2' vs2' out2'] by simp
        next
          fix c' k' d vs1 a1 e
          assume "(c', k') \<in> set ks" "I ((c, k) # d) vs1 (Inr a1)" "fn c' k' a1 = Inl e"
          then show "I ((c, k) # d @ [(c', k')]) (vs1 @ [(c', k')]) (Inl e)"
            using Cons.prems(4) [of c' k' "(c, k) # d" vs1 a1 e] by simp
        qed
        then show ?thesis using ck by (auto split: sum.splits)
      qed
    qed
  qed
qed

text \<open>Every entity the walk calls \<open>fn\<close> on is a child of an active entity that is the
  start of the walk or was itself passed to \<open>fn\<close>.\<close>

definition has_walked_parent :: "store \<Rightarrow> ref \<Rightarrow> (ref \<times> string) list \<Rightarrow> ref \<times> string \<Rightarrow> bool" where
  "has_walked_parent s e ws ck \<longleftrightarrow>
     (\<exists>p. ck \<in> set (walkChildren p s) \<and> active (s p) \<and> (p = e \<or> p \<in> fst ` set ws))"

lemma has_walked_parent_mono:
  "has_walked_parent s e ws ck \<Longrightarrow> set ws \<subseteq> set ws' \<Longrightarrow> has_walked_parent s e ws' ck"
  unfolding has_walked_parent_def by blast

lemma walkRecursive_sound:
  fixes fn :: "ref \<Rightarrow> string \<Rightarrow> 'a \<Rightarrow> 'e + 'a"
  shows "walkRecursive n s fn e nm True (vs0, a) = Some (vs, out) \<Longrightarrow>
     \<exists>ws. vs = vs0 @ ws \<and> (\<forall>ck \<in> set ws. has_walked_parent s e ws ck)"
proof (induction n arbitrary: e nm vs0 a vs out)
  case 0
  then show ?case by simp
next
  case (Suc n)
  show ?case
  proof (cases "active (s e)")
    case False
    with Suc.prems show ?thesis by simp
  next
    case True
    define I where "I = (\<lambda>(d :: (ref \<times> string) list) v (out :: 'e + 'a). \<exists>ws. v = vs0 @ ws \<and> set d \<subseteq> set (walkChildren e s)
              \<and> (\<forall>ck \<in> set ws. ck \<in> set d \<or> has_walked_parent s e ws ck))"
    from True Suc.prems
    have f: "fold (walk_callback fn (\<lambda>c k. walkRecursive n s fn c k True)) (walkChildren e s)
               (Some (vs0, Inr a)) = Some (vs, out)"
      by simp
    have "\<exists>done. I done vs out \<and> (case out of Inr _ \<Rightarrow> done = walkChildren e s | Inl _ \<Rightarrow> True)"
    proof (rule fold_walk_callback_rule [OF f])
      show "I [] vs0 (Inr a)" by (simp add: I_def)
    next
      fix c k d vs1 a1 a2 vs2 out2
      assume ck: "(c, k) \<in> set (walkChildren e s)" and I1: "I d vs1 (Inr a1)"
        and "fn c k a1 = Inr a2"
        and rec: "walkRecursive n s fn c k True (vs1 @ [(c, k)], a2) = Some (vs2, out2)"
      from I1 obtain ws1 where ws1: "vs1 = vs0 @ ws1" "set d \<subseteq> set (walkChildren e s)"
        "\<forall>x \<in> set ws1. x \<in> set d \<or> has_walked_parent s e ws1 x"
        unfolding I_def by auto
      from Suc.IH [OF rec] obtain ws' where ws': "vs2 = (vs1 @ [(c, k)]) @ ws'"
        "\<forall>x \<in> set ws'. has_walked_parent s c ws' x" by auto
      let ?ws = "ws1 @ [(c, k)] @ ws'"
      have "\<forall>x \<in> set ?ws. x \<in> set (d @ [(c, k)]) \<or> has_walked_parent s e ?ws x"
      proof
        fix x assume "x \<in> set ?ws"
        then consider "x \<in> set ws1" | "x = (c, k)" | "x \<in> set ws'" by auto
        then show "x \<in> set (d @ [(c, k)]) \<or> has_walked_parent s e ?ws x"
        proof cases
          case 1
          with ws1(3) have "x \<in> set d \<or> has_walked_parent s e ws1 x" by simp
          then show ?thesis by (auto intro: has_walked_parent_mono)
        next
          case 2
          then show ?thesis by simp
        next
          case 3
          with ws'(2) have "has_walked_parent s c ws' x" by simp
          then have "has_walked_parent s e ?ws x"
            unfolding has_walked_parent_def by force
          then show ?thesis by simp
        qed
      qed
      with ws1 ws' ck show "I (d @ [(c, k)]) vs2 out2"
        unfolding I_def by auto
    next
      fix c k d vs1 a1 err
      assume ck: "(c, k) \<in> set (walkChildren e s)" and I1: "I d vs1 (Inr a1)"
      from I1 obtain ws1 where ws1: "vs1 = vs0 @ ws1" "set d \<subseteq> set (walkChildren e s)"
        "\<forall>x \<in> set ws1. x \<in> set d \<or> has_walked_parent s e ws1 x"
        unfolding I_def by auto
      have "\<forall>x \<in> set (ws1 @ [(c, k)]). x \<in> set (d @ [(c, k)]) \<or> has_walked_parent s e (ws1 @ [(c, k)]) x"
        using ws1(3) by (auto intro: has_walked_parent_mono)
      with ws1 ck show "I (d @ [(c, k)]) (vs1 @ [(c, k)]) (Inl err)"
        unfolding I_def by auto
    qed
    then obtain d ws where "vs = vs0 @ ws" "set d \<subseteq> set (walkChildren e s)"
      "\<forall>ck \<in> set ws. ck \<in> set d \<or> has_walked_parent s e ws ck"
      unfolding I_def by auto
    moreover have "\<And>ck. ck \<in> set (walkChildren e s) \<Longrightarrow> has_walked_parent s e ws ck"
      using True unfolding has_walked_parent_def by auto
    ultimately show ?thesis by blast
  qed
qed


lemma walkRecursive_complete:
  fixes fn :: "ref \<Rightarrow> string \<Rightarrow> 'a \<Rightarrow> 'e + 'a"
  shows "walkRecursive n s fn e nm True (vs0, a) = Some (vs, Inr a') \<Longrightarrow>
     \<exists>ws. vs = vs0 @ ws \<and> (active (s e) \<longrightarrow> set (walkChildren e s) \<subseteq> set ws)
        \<and> (\<forall>p \<in> fst ` set ws. active (s p) \<longrightarrow> set (walkChildren p s) \<subseteq> set ws)"
proof (induction n arbitrary: e nm vs0 a vs a')
  case 0
  then show ?case by simp
next
  case (Suc n)
  show ?case
  proof (cases "active (s e)")
    case False
    with Suc.prems show ?thesis by simp
  next
    case True
    define I where "I = (\<lambda>(d :: (ref \<times> string) list) v (out :: 'e + 'a).
       (\<exists>x. out = Inr x) \<longrightarrow> (\<exists>ws. v = vs0 @ ws \<and> set d \<subseteq> set ws
              \<and> (\<forall>p \<in> fst ` set ws. active (s p) \<longrightarrow> set (walkChildren p s) \<subseteq> set ws)))"
    from True Suc.prems
    have f: "fold (walk_callback fn (\<lambda>c k. walkRecursive n s fn c k True)) (walkChildren e s)
               (Some (vs0, Inr a)) = Some (vs, Inr a')"
      by simp
    have "\<exists>done. I done vs (Inr a') \<and> (case (Inr a' :: 'e + 'a) of Inr _ \<Rightarrow> done = walkChildren e s | Inl _ \<Rightarrow> True)"
    proof (rule fold_walk_callback_rule [OF f])
      show "I [] vs0 (Inr a)" by (simp add: I_def)
    next
      fix c k d vs1 a1 a2 vs2 out2
      assume ck: "(c, k) \<in> set (walkChildren e s)" and I1: "I d vs1 (Inr a1)"
        and "fn c k a1 = Inr a2"
        and rec: "walkRecursive n s fn c k True (vs1 @ [(c, k)], a2) = Some (vs2, out2)"
      show "I (d @ [(c, k)]) vs2 out2"
      proof (cases out2)
        case (Inl x)
        then show ?thesis by (simp add: I_def)
      next
        case (Inr a3)
        from I1 obtain ws1 where ws1: "vs1 = vs0 @ ws1" "set d \<subseteq> set ws1"
          "\<forall>p \<in> fst ` set ws1. active (s p) \<longrightarrow> set (walkChildren p s) \<subseteq> set ws1"
          unfolding I_def by auto
        from Suc.IH [OF rec [unfolded Inr]] obtain ws' where ws': "vs2 = (vs1 @ [(c, k)]) @ ws'"
          "active (s c) \<longrightarrow> set (walkChildren c s) \<subseteq> set ws'"
          "\<forall>p \<in> fst ` set ws'. active (s p) \<longrightarrow> set (walkChildren p s) \<subseteq> set ws'" by auto
        let ?ws = "ws1 @ [(c, k)] @ ws'"
        have "\<forall>p \<in> fst ` set ?ws. active (s p) \<longrightarrow> set (walkChildren p s) \<subseteq> set ?ws"
        proof (intro ballI impI)
          fix p assume p: "p \<in> fst ` set ?ws" "active (s p)"
          then consider "p \<in> fst ` set ws1" | "p = c" | "p \<in> fst ` set ws'" by auto
          then show "set (walkChildren p s) \<subseteq> set ?ws"
          proof cases
            case 1
            with ws1(3) p(2) show ?thesis by auto
          next
            case 2
            with ws'(2) p(2) show ?thesis by auto
          next
            case 3
            with ws'(3) p(2) show ?thesis by auto
          qed
        qed
        with ws1 ws' show ?thesis unfolding I_def by auto
      qed
    next
      fix c k d vs1 a1 err
      show "I (d @ [(c, k)]) (vs1 @ [(c, k)]) (Inl err)" by (simp add: I_def)
    qed
    then show ?thesis unfolding I_def by auto
  qed
qed

lemma walk_callback_Inl:
  "walk_callback fn rec ck (Some (vs, Inl e)) = Some (vs, Inl e)"
  by (simp add: walk_callback_def)

lemma fold_walk_callback_returns:
  "\<forall>ck \<in> set ks. \<forall>va. \<exists>r. rec (fst ck) (snd ck) va = Some r \<Longrightarrow>
     \<exists>r. fold (walk_callback fn rec) ks (Some x) = Some r"
proof (induction ks arbitrary: x)
  case Nil
  then show ?case by simp
next
  case (Cons ck ks)
  obtain c k where ck: "ck = (c, k)" by (cases ck)
  obtain vs out where x: "x = (vs, out)" by (cases x)
  show ?case
  proof (cases out)
    case (Inl e)
    then show ?thesis by (simp add: x walk_callback_Inl)
  next
    case (Inr a)
    show ?thesis
    proof (cases "fn c k a")
      case (Inl e)
      then show ?thesis by (simp add: x Inr ck walk_callback_Inr)
    next
      case Inr2: (Inr a2)
      from Cons.prems ck obtain r where "rec c k (vs @ [(c, k)], a2) = Some r" by fastforce
      moreover have "\<exists>r'. fold (walk_callback fn rec) ks (Some r) = Some r'"
        using Cons.IH Cons.prems by simp
      ultimately show ?thesis by (simp add: x Inr ck Inr2 walk_callback_Inr)
    qed
  qed
qed

lemma walkRecursive_returns:
  "depth_le n s e \<Longrightarrow> \<exists>r. walkRecursive n s fn e nm onlyActive va = Some r"
proof (induction n arbitrary: e nm va)
  case 0
  then show ?case by simp
next
  case (Suc n)
  have "\<forall>ck \<in> set (walkChildren e s). \<forall>va. \<exists>r. walkRecursive n s fn (fst ck) (snd ck) onlyActive va = Some r"
    using Suc by simp
  from fold_walk_callback_returns [where rec = "\<lambda>c k. walkRecursive n s fn c k onlyActive", OF this]
  show ?case by simp
qed


lemma walkChildren_parent:
  "entity_inv s \<Longrightarrow> ck \<in> set (walkChildren p s) \<Longrightarrow> parent (s (fst ck)) = Some p"
proof -
  assume inv: "entity_inv s" and "ck \<in> set (walkChildren p s)"
  then have "fst ck \<in> child ` set (children (s p))"
    by (auto simp: walkChildren_kids kids_def)
  with inv show ?thesis unfolding entity_inv_def by blast
qed

lemma descendant_has_parent:
  "descendant s b c \<Longrightarrow> entity_inv s \<Longrightarrow> \<exists>p. parent (s c) = Some p"
  by (induction rule: descendant.induct) (auto dest: walkChildren_parent)

lemma setActive_inv: "entity_inv s \<Longrightarrow> entity_inv (setActive e b s)"
  unfolding entity_inv_def setActive_def by simp

lemma scene_inactive_inv: "entity_inv scene_inactive"
proof -
  obtain h s where r: "run_ops [AddChild 0 ''A'' 1, AddChild 1 ''B'' 2, AddChild 2 ''C'' 3] fresh_store = (h, s)"
    by (cases "run_ops [AddChild 0 ''A'' 1, AddChild 1 ''B'' 2, AddChild 2 ''C'' 3] fresh_store")
  from run_ops_kids [OF entity_inv_fresh r] have "entity_inv s" by simp
  then show ?thesis unfolding scene_inactive_def r by (simp add: setActive_inv)
qed

lemmas ex_simps = scene_inactive_def scene_two_names_def setActive_def addChild_def fresh_store_def new_Entity_def
  Let_def walkChildren_def walk_def visit_only_def walk_callback_def

lemma first_by_name_Nil [simp]: "first_by_name s nm [] = None"
  by (simp add: first_by_name_def)

lemma first_by_name_Cons:
  "first_by_name s nm (p # ps) =
     (case getChild p nm s of Some f \<Rightarrow> Some f | None \<Rightarrow> first_by_name s nm ps)"
  by (auto simp: first_by_name_def split: option.splits)

lemma first_by_name_append:
  "first_by_name s nm (xs @ ys) =
     (case first_by_name s nm xs of Some f \<Rightarrow> Some f | None \<Rightarrow> first_by_name s nm ys)"
  by (induction xs) (auto simp: first_by_name_Cons split: option.splits)

lemma find_callback_Some:
  "find_callback rec ck (Some found) =
     (case found of Some f \<Rightarrow> Some (Some f) | None \<Rightarrow> rec (fst ck))"
  by (simp add: find_callback_def split: option.splits)

lemma fold_find_walk:
  assumes "\<forall>ck \<in> set ks. \<forall>vs0. \<exists>ws.
              recW (fst ck) (snd ck) (vs0, ()) = Some (vs0 @ ws, Inr ())
              \<and> recF (fst ck) = Some (first_by_name s nm (fst ck # map fst ws))"
  shows "\<exists>ws. fold (walk_callback visit_only recW) ks (Some (vs1, Inr ())) = Some (vs1 @ ws, Inr ())
           \<and> fold (find_callback recF) ks (Some found)
               = Some (case found of Some f \<Rightarrow> Some f | None \<Rightarrow> first_by_name s nm (map fst ws))"
  using assms
proof (induction ks arbitrary: vs1 found)
  case Nil
  then show ?case by (simp split: option.splits)
next
  case (Cons ck ks)
  obtain c k where ck: "ck = (c, k)" by (cases ck)
  from Cons.prems have "\<forall>vs0. \<exists>ws. recW (fst ck) (snd ck) (vs0, ()) = Some (vs0 @ ws, Inr ())
            \<and> recF (fst ck) = Some (first_by_name s nm (fst ck # map fst ws))"
    by simp
  then have "\<exists>ws. recW c k (vs1 @ [(c, k)], ()) = Some ((vs1 @ [(c, k)]) @ ws, Inr ())
            \<and> recF c = Some (first_by_name s nm (c # map fst ws))"
    unfolding ck fst_conv snd_conv by (rule spec)
  then obtain wc where wc:
    "recW c k (vs1 @ [(c, k)], ()) = Some ((vs1 @ [(c, k)]) @ wc, Inr ())"
    "recF c = Some (first_by_name s nm (c # map fst wc))"
    by blast
  define found' where
    "found' = (case found of Some f \<Rightarrow> Some f | None \<Rightarrow> first_by_name s nm (c # map fst wc))"
  have w1: "walk_callback visit_only recW ck (Some (vs1, Inr ())) = Some ((vs1 @ [(c, k)]) @ wc, Inr ())"
    using wc(1) by (simp add: ck walk_callback_Inr visit_only_def)
  have f1: "find_callback recF ck (Some found) = Some found'"
    using wc(2) by (simp add: ck find_callback_Some found'_def split: option.splits)
  from Cons.IH [of "(vs1 @ [(c, k)]) @ wc" found'] Cons.prems
  obtain ws' where ws':
    "fold (walk_callback visit_only recW) ks (Some ((vs1 @ [(c, k)]) @ wc, Inr ()))
       = Some (((vs1 @ [(c, k)]) @ wc) @ ws', Inr ())"
    "fold (find_callback recF) ks (Some found')
       = Some (case found' of Some f \<Rightarrow> Some f | None \<Rightarrow> first_by_name s nm (map fst ws'))"
    by auto
  have "(case found' of Some f \<Rightarrow> Some f | None \<Rightarrow> first_by_name s nm (map fst ws'))
        = (case found of Some f \<Rightarrow> Some f
           | None \<Rightarrow> first_by_name s nm (map fst ((c, k) # wc @ ws')))"
    using first_by_name_append [of s nm "c # map fst wc" "map fst ws'"]
    by (simp add: found'_def split: option.splits)
  with ws' w1 f1 show ?case
    by (intro exI [of _ "(c, k) # wc @ ws'"]) simp
qed

lemma findObjectRecursive_walk:
  "depth_le n s e \<Longrightarrow>
     \<exists>ws. walkRecursive n s visit_only e k False (vs0, ()) = Some (vs0 @ ws, Inr ())
        \<and> findObjectRecursive n s e nm = Some (first_by_name s nm (e # map fst ws))"
proof (induction n arbitrary: e k vs0)
  case 0
  then show ?case by simp
next
  case (Suc n)
  have "\<forall>ck \<in> set (walkChildren e s). \<forall>vs0. \<exists>ws.
           walkRecursive n s visit_only (fst ck) (snd ck) False (vs0, ()) = Some (vs0 @ ws, Inr ())
           \<and> findObjectRecursive n s (fst ck) nm = Some (first_by_name s nm (fst ck # map fst ws))"
    using Suc by simp
  from fold_find_walk [where recW = "\<lambda>c k. walkRecursive n s visit_only c k False"
      and recF = "\<lambda>obj. findObjectRecursive n s obj nm", OF this, of vs0 None]
  obtain ws where ws:
    "fold (walk_callback visit_only (\<lambda>c k. walkRecursive n s visit_only c k False))
       (walkChildren e s) (Some (vs0, Inr ())) = Some (vs0 @ ws, Inr ())"
    "fold (find_callback (\<lambda>obj. findObjectRecursive n s obj nm)) (walkChildren e s) (Some None)
       = Some (first_by_name s nm (map fst ws))"
    by auto
  then show ?case
    by (intro exI [of _ ws]) (simp add: first_by_name_Cons split: option.splits)
qed

section \<open>Running the machine\<close>

text \<open>The defining equations that evaluate an execution from a given state.\<close>

lemmas machine_defs = emit_def newPromise_def FulfillPromise_def RejectPromise_def
  resolveFunction_def rejectFunction_def Promise_then_def Promise_resolve_def
  Promise_all_element_def Promise_all_def addComponent_def call_method_def
  onComponentCreated_def setupMissing_callback_def setupMissing_def refreshLoop_def refresh_def
  chain_call_def run_handler_def run_job_def step_def SceneMgrSystem_iterate_def
  push_def Display_walkFn_callback_def Display_walkFn_def Logic_walkFn_callback_def
  Logic_walkFn_def call_walkFn_def walkRecursive_callback_def Scene_walkRecursive_def
  Scene_walk_def DisplaySystem_iterate_def
  LogicSystem_iterate_def act_def initial_world_def Let_def

section \<open>The order of events is kept by every step\<close>

lemma ordered_Nil [simp]: "ordered []"
  by (simp add: ordered_def)

lemma ordered_snoc: "ordered (t @ [e]) \<longleftrightarrow> ordered t \<and> justified (set t) e"
proof
  assume o: "ordered (t @ [e])"
  have "ordered t"
    unfolding ordered_def
  proof (intro allI impI)
    fix i assume i: "i < length t"
    with o have "justified (set (take i (t @ [e]))) ((t @ [e]) ! i)"
      by (simp add: ordered_def)
    with i show "justified (set (take i t)) (t ! i)" by (simp add: nth_append)
  qed
  moreover have "justified (set (take (length t) (t @ [e]))) ((t @ [e]) ! length t)"
    using o unfolding ordered_def by (elim allE [of _ "length t"]) simp
  ultimately show "ordered t \<and> justified (set t) e" by simp
next
  assume a: "ordered t \<and> justified (set t) e"
  show "ordered (t @ [e])"
    unfolding ordered_def
  proof (intro allI impI)
    fix i assume "i < length (t @ [e])"
    then consider "i < length t" | "i = length t" by fastforce
    then show "justified (set (take i (t @ [e]))) ((t @ [e]) ! i)"
    proof cases
      case 1
      with a show ?thesis by (simp add: ordered_def nth_append)
    next
      case 2
      with a show ?thesis by simp
    qed
  qed
qed

lemma ordered_split: "ordered t \<Longrightarrow> t = pre @ e # post \<Longrightarrow> justified (set pre) e"
proof -
  assume o: "ordered t" and t: "t = pre @ e # post"
  then have "justified (set (take (length pre) t)) (t ! length pre)"
    unfolding ordered_def by (elim allE [of _ "length pre"]) simp
  with t show ?thesis by simp
qed

lemma ordered_Then_unique:
  assumes "ordered t" "Then p h q \<in> set t" "Then p' h' q \<in> set t"
  shows "p = p' \<and> h = h'"
proof -
  from assms(2) obtain i where i: "i < length t" "t ! i = Then p h q"
    by (auto simp: in_set_conv_nth)
  from assms(3) obtain j where j: "j < length t" "t ! j = Then p' h' q"
    by (auto simp: in_set_conv_nth)
  have no: "\<And>a b x y z u. a < b \<Longrightarrow> b < length t \<Longrightarrow> t ! a = Then x y q \<Longrightarrow> t ! b = Then z u q \<Longrightarrow> False"
  proof -
    fix a b x y z u
    assume ab: "a < b" "b < length t" "t ! a = Then x y q" "t ! b = Then z u q"
    from assms(1) ab(2) have "justified (set (take b t)) (t ! b)" by (simp add: ordered_def)
    with ab(4) have "unregistered (set (take b t)) q" by simp
    moreover have "t ! a \<in> set (take b t)"
      using ab(1,2) by (auto simp: in_set_conv_nth intro!: exI [of _ a])
    ultimately show False using ab(3) by (simp add: unregistered_def)
  qed
  consider "i < j" | "j < i" | "i = j" by linarith
  then show ?thesis
  proof cases
    case 1 then show ?thesis using no [of i j p h p' h'] i j by simp
  next
    case 2 then show ?thesis using no [of j i p' h' p h] i j by simp
  next
    case 3 then show ?thesis using i j by simp
  qed
qed

lemma extends_refl [simp]: "extends w w"
  by (simp add: extends_def)

lemma extends_trans: "extends w w1 \<Longrightarrow> extends w1 w2 \<Longrightarrow> extends w w2"
  unfolding extends_def by (auto; metis le_trans)

lemma extends_Then:
  "extends w w' \<Longrightarrow> q < nextPromise w \<Longrightarrow> Then p h q \<in> set (trace w') \<Longrightarrow>
     Then p h q \<in> set (trace w)"
  unfolding extends_def by (metis leD)

lemma settled_call_extends:
  assumes "settled_call (set (trace w)) q" "extends w w'" "q < nextPromise w"
  shows "settled_call (set (trace w')) q"
  unfolding settled_call_def
proof (intro allI impI)
  fix p h i assume a: "Then p h q \<in> set (trace w') \<and> invoked h = Some i"
  then have "Then p h q \<in> set (trace w)" using extends_Then [OF assms(2,3)] by blast
  with assms(1) a obtain v where "start q i \<in> set (trace w)" "Return q v \<in> set (trace w)"
    "\<forall>r. v = Promise r \<longrightarrow> Fulfil r \<in> set (trace w)"
    unfolding settled_call_def by blast
  moreover have "set (trace w) \<subseteq> set (trace w')" using assms(2) by (simp add: extends_def)
  ultimately show "\<exists>v. start q i \<in> set (trace w') \<and> Return q v \<in> set (trace w')
                      \<and> (\<forall>r. v = Promise r \<longrightarrow> Fulfil r \<in> set (trace w'))"
    by blast
qed

lemma adopting_extends:
  "adopting (set (trace w)) q r \<Longrightarrow> extends w w' \<Longrightarrow> q < nextPromise w \<Longrightarrow>
     adopting (set (trace w')) q r"
  unfolding adopting_def using extends_Then [of w w' q] by (fastforce simp: extends_def)

lemma unregistered_extends:
  "unregistered (set (trace w)) q \<Longrightarrow> extends w w' \<Longrightarrow> q < nextPromise w \<Longrightarrow>
     unregistered (set (trace w')) q"
  unfolding unregistered_def extends_def
  by (metis leD)

lemma handler_ok_extends:
  "handler_ok w h \<Longrightarrow> extends w w' \<Longrightarrow> handler_ok w' h"
  unfolding handler_ok_def extends_def by (auto; metis less_le_trans)

lemma job_ok_extends:
  "job_ok w j \<Longrightarrow> extends w w' \<Longrightarrow> job_ok w' j"
proof (cases j)
  case (ReactionJob h v q)
  assume a: "job_ok w j" "extends w w'"
  then have q: "q < nextPromise w" using ReactionJob by simp
  have then_old: "\<And>p h0. Then p h0 q \<in> set (trace w') \<Longrightarrow> Then p h0 q \<in> set (trace w)"
    using a(2) q unfolding extends_def by (metis leD)
  have sub: "set (trace w) \<subseteq> set (trace w')" using a(2) by (simp add: extends_def)
  have "q < nextPromise w'" using q a(2) by (simp add: extends_def)
  moreover have "handler_ok w' h" using a ReactionJob by (auto intro: handler_ok_extends)
  moreover have "fulfil_only h \<longrightarrow> (\<exists>p. Then p h q \<in> set (trace w') \<and> Fulfil p \<in> set (trace w'))"
    using a(1) ReactionJob sub by auto
  moreover have "\<forall>x. h = RejectFn x \<longrightarrow> (\<forall>p h0. Then p h0 q \<in> set (trace w') \<longrightarrow> invoked h0 = None)"
    using a(1) ReactionJob then_old by simp blast
  moreover have "\<forall>q'. h = ResolveFn q' \<longrightarrow> settled_call (set (trace w')) q'"
    using a ReactionJob by (auto simp: handler_ok_def intro: settled_call_extends)
  ultimately show ?thesis using a(1) ReactionJob by simp
next
  case (ThenableJob q r)
  assume a: "job_ok w j" "extends w w'"
  then show ?thesis using ThenableJob
    by (auto simp: extends_def intro: adopting_extends [OF _ a(2)])
qed

lemma reaction_ok_extends:
  "reaction_ok w p r \<Longrightarrow> extends w w' \<Longrightarrow> (\<forall>p h q. Then p h q \<in> set (trace w) \<longrightarrow> q < nextPromise w) \<Longrightarrow>
     reaction_ok w' p r"
proof -
  assume a: "reaction_ok w p r" "extends w w'"
    and b: "\<forall>p h q. Then p h q \<in> set (trace w) \<longrightarrow> q < nextPromise w"
  have sub: "set (trace w) \<subseteq> set (trace w')" using a(2) by (simp add: extends_def)
  have "\<forall>q. onFulfilled r = ResolveFn q \<longrightarrow> adopting (set (trace w')) q p"
    using a by (auto simp: reaction_ok_def handler_ok_def intro: adopting_extends)
  then show ?thesis
    using a sub unfolding reaction_ok_def by (auto intro: handler_ok_extends)
qed

lemma invI:
  assumes "ordered (trace w)"
    and "\<And>p h q. Then p h q \<in> set (trace w) \<Longrightarrow> q < nextPromise w"
    and "\<And>q. Fulfil q \<in> set (trace w) \<Longrightarrow> q < nextPromise w"
    and "\<And>p v. promises w p = Fulfilled v \<Longrightarrow> Fulfil p \<in> set (trace w) \<and> \<not> is_promise v"
    and "\<And>p v. promises w p = Rejected v \<Longrightarrow> \<not> is_promise v"
    and "\<And>j. j \<in> set (jobs w) \<Longrightarrow> job_ok w j"
    and "\<And>p r. r \<in> set (reactions w p) \<Longrightarrow> reaction_ok w p r"
    and "\<And>p. p \<in> set (externals w) \<Longrightarrow> p < nextPromise w \<and> unregistered (set (trace w)) p"
    and "\<And>a. a < nextAll w \<Longrightarrow> capability (alls w a) < nextPromise w
                          \<and> unregistered (set (trace w)) (capability (alls w a))"
    and "\<And>cd. cd \<in> set (compDescr w) \<Longrightarrow> Enqueue (fst cd) \<in> set (trace w)"
  shows "inv w"
  unfolding inv_def using assms by blast

lemma inv_ordered: "inv w \<Longrightarrow> ordered (trace w)"
  and inv_Then: "inv w \<Longrightarrow> Then p h q \<in> set (trace w) \<Longrightarrow> q < nextPromise w"
  and inv_Fulfil: "inv w \<Longrightarrow> Fulfil q \<in> set (trace w) \<Longrightarrow> q < nextPromise w"
  and inv_Fulfilled: "inv w \<Longrightarrow> promises w p = Fulfilled v \<Longrightarrow> Fulfil p \<in> set (trace w) \<and> \<not> is_promise v"
  and inv_Rejected: "inv w \<Longrightarrow> promises w p = Rejected v \<Longrightarrow> \<not> is_promise v"
  and inv_job: "inv w \<Longrightarrow> j \<in> set (jobs w) \<Longrightarrow> job_ok w j"
  and inv_reaction: "inv w \<Longrightarrow> r \<in> set (reactions w p) \<Longrightarrow> reaction_ok w p r"
  and inv_external: "inv w \<Longrightarrow> p \<in> set (externals w) \<Longrightarrow> p < nextPromise w \<and> unregistered (set (trace w)) p"
  and inv_all: "inv w \<Longrightarrow> a < nextAll w \<Longrightarrow> capability (alls w a) < nextPromise w
                          \<and> unregistered (set (trace w)) (capability (alls w a))"
  and inv_compDescr: "inv w \<Longrightarrow> cd \<in> set (compDescr w) \<Longrightarrow> Enqueue (fst cd) \<in> set (trace w)"
  unfolding inv_def by blast+

lemma inv_fresh_unregistered: "inv w \<Longrightarrow> nextPromise w \<le> q \<Longrightarrow> unregistered (set (trace w)) q"
  unfolding unregistered_def using inv_Then by (metis leD)

text \<open>A state that differs from one with the invariant in that events were added.\<close>

lemma inv_extends:
  assumes "inv w" "extends w w'"
    and "ordered (trace w')"
    and "\<And>p h q. Then p h q \<in> set (trace w') \<Longrightarrow> q < nextPromise w'"
    and "\<And>q. Fulfil q \<in> set (trace w') \<Longrightarrow> q < nextPromise w'"
    and "\<And>p v. promises w' p = Fulfilled v \<Longrightarrow> promises w p \<noteq> Fulfilled v \<Longrightarrow>
           Fulfil p \<in> set (trace w') \<and> \<not> is_promise v"
    and "\<And>p v. promises w' p = Rejected v \<Longrightarrow> promises w p \<noteq> Rejected v \<Longrightarrow> \<not> is_promise v"
    and "\<And>j. j \<in> set (jobs w') \<Longrightarrow> j \<notin> set (jobs w) \<Longrightarrow> job_ok w' j"
    and "\<And>p r. r \<in> set (reactions w' p) \<Longrightarrow> r \<notin> set (reactions w p) \<Longrightarrow> reaction_ok w' p r"
    and "\<And>p. p \<in> set (externals w') \<Longrightarrow> p \<notin> set (externals w) \<Longrightarrow>
           p < nextPromise w' \<and> unregistered (set (trace w')) p"
    and "\<And>a. a < nextAll w' \<Longrightarrow> \<not> (a < nextAll w \<and> capability (alls w' a) = capability (alls w a)) \<Longrightarrow>
           capability (alls w' a) < nextPromise w' \<and> unregistered (set (trace w')) (capability (alls w' a))"
    and "\<And>cd. cd \<in> set (compDescr w') \<Longrightarrow> cd \<notin> set (compDescr w) \<Longrightarrow> Enqueue (fst cd) \<in> set (trace w')"
  shows "inv w'"
proof (rule invI)
  have sub: "set (trace w) \<subseteq> set (trace w')" and np: "nextPromise w \<le> nextPromise w'"
    using assms(2) by (simp_all add: extends_def)
  show "ordered (trace w')" by fact
  show "\<And>p h q. Then p h q \<in> set (trace w') \<Longrightarrow> q < nextPromise w'" by fact
  show "\<And>q. Fulfil q \<in> set (trace w') \<Longrightarrow> q < nextPromise w'" by fact
  show "\<And>p v. promises w' p = Fulfilled v \<Longrightarrow> Fulfil p \<in> set (trace w') \<and> \<not> is_promise v"
    using assms(6) inv_Fulfilled [OF assms(1)] sub by (metis subsetD)
  show "\<And>p v. promises w' p = Rejected v \<Longrightarrow> \<not> is_promise v"
    using assms(7) inv_Rejected [OF assms(1)] by metis
  show "\<And>j. j \<in> set (jobs w') \<Longrightarrow> job_ok w' j"
    using assms(8) inv_job [OF assms(1)] job_ok_extends [OF _ assms(2)] by metis
  show "\<And>p r. r \<in> set (reactions w' p) \<Longrightarrow> reaction_ok w' p r"
    using assms(9) inv_reaction [OF assms(1)] reaction_ok_extends [OF _ assms(2)]
      inv_Then [OF assms(1)] by metis
  show "\<And>p. p \<in> set (externals w') \<Longrightarrow> p < nextPromise w' \<and> unregistered (set (trace w')) p"
  proof -
    fix p assume p: "p \<in> set (externals w')"
    show "p < nextPromise w' \<and> unregistered (set (trace w')) p"
    proof (cases "p \<in> set (externals w)")
      case True
      from inv_external [OF assms(1) True] unregistered_extends [OF _ assms(2)] np
      show ?thesis by auto
    next
      case False
      with p assms(10) show ?thesis by simp
    qed
  qed
  show "\<And>a. a < nextAll w' \<Longrightarrow> capability (alls w' a) < nextPromise w'
                          \<and> unregistered (set (trace w')) (capability (alls w' a))"
  proof -
    fix a assume a: "a < nextAll w'"
    show "capability (alls w' a) < nextPromise w'
            \<and> unregistered (set (trace w')) (capability (alls w' a))"
    proof (cases "a < nextAll w \<and> capability (alls w' a) = capability (alls w a)")
      case True
      from inv_all [OF assms(1), of a] True unregistered_extends [OF _ assms(2)] np
      show ?thesis by auto
    next
      case False
      with a assms(11) show ?thesis by simp
    qed
  qed
  show "\<And>cd. cd \<in> set (compDescr w') \<Longrightarrow> Enqueue (fst cd) \<in> set (trace w')"
    using assms(12) inv_compDescr [OF assms(1)] sub by (metis subsetD)
qed

lemma emit_extends:
  "\<forall>p h q. e \<noteq> Then p h q \<Longrightarrow> extends w (emit e w)"
  by (auto simp: extends_def emit_def)

lemma emit_inv:
  assumes "inv w" "justified (set (trace w)) e" "\<forall>p h q. e \<noteq> Then p h q"
    "\<forall>q. e = Fulfil q \<longrightarrow> q < nextPromise w"
  shows "inv (emit e w)"
proof (rule inv_extends [OF assms(1) emit_extends [OF assms(3)]])
  show "ordered (trace (emit e w))"
    using assms(1,2) by (simp add: emit_def ordered_snoc inv_ordered)
  show "\<And>p h q. Then p h q \<in> set (trace (emit e w)) \<Longrightarrow> q < nextPromise (emit e w)"
    using assms(3) inv_Then [OF assms(1)] by (auto simp: emit_def)
  show "\<And>q. Fulfil q \<in> set (trace (emit e w)) \<Longrightarrow> q < nextPromise (emit e w)"
    using assms(4) inv_Fulfil [OF assms(1)] by (auto simp: emit_def)
qed (simp_all add: emit_def)

lemma newPromise_inv:
  assumes "inv w"
  shows "inv (snd (newPromise Pending w))" and "extends w (snd (newPromise Pending w))"
proof -
  let ?w = "snd (newPromise Pending w)"
  show ext: "extends w ?w" by (simp add: extends_def newPromise_def)
  show "inv ?w"
  proof (rule inv_extends [OF assms ext])
    show "ordered (trace ?w)" using assms by (simp add: newPromise_def inv_ordered)
    show "\<And>p h q. Then p h q \<in> set (trace ?w) \<Longrightarrow> q < nextPromise ?w"
      using inv_Then [OF assms] by (fastforce simp: newPromise_def)
    show "\<And>q. Fulfil q \<in> set (trace ?w) \<Longrightarrow> q < nextPromise ?w"
      using inv_Fulfil [OF assms] by (fastforce simp: newPromise_def)
    show "\<And>a. a < nextAll ?w \<Longrightarrow>
            \<not> (a < nextAll w \<and> capability (alls ?w a) = capability (alls w a)) \<Longrightarrow>
            capability (alls ?w a) < nextPromise ?w
            \<and> unregistered (set (trace ?w)) (capability (alls ?w a))"
      by (simp add: newPromise_def)
  qed (auto simp: newPromise_def split: if_splits)
qed

lemma Promise_resolve_Promise [simp]: "Promise_resolve (Promise p) w = (p, w)"
  by (simp add: Promise_resolve_def)

lemma Promise_resolve_value:
  "\<not> is_promise v \<Longrightarrow>
     Promise_resolve v w =
       (nextPromise w, w\<lparr>promises := (promises w)(nextPromise w := Fulfilled v),
                           nextPromise := nextPromise w + 1,
                           trace := trace w @ [Fulfil (nextPromise w)]\<rparr>)"
  by (cases v) (simp_all add: Promise_resolve_def newPromise_def emit_def)

lemma Promise_resolve_inv:
  assumes "inv w"
  shows "inv (snd (Promise_resolve v w))" and "extends w (snd (Promise_resolve v w))"
    and "\<exists>x. promises (snd (Promise_resolve v w)) (fst (Promise_resolve v w)) = Fulfilled x
         \<or> (v = Promise (fst (Promise_resolve v w)))"
proof -
  let ?w = "snd (Promise_resolve v w)"
  show ext: "extends w ?w"
    by (cases "is_promise v"; cases v) (auto simp: extends_def Promise_resolve_value)
  show "\<exists>x. promises ?w (fst (Promise_resolve v w)) = Fulfilled x
         \<or> (v = Promise (fst (Promise_resolve v w)))"
    by (cases "is_promise v"; cases v) (auto simp: Promise_resolve_value)
  show "inv ?w"
  proof (cases "is_promise v")
    case True
    then show ?thesis using assms by (cases v) (simp_all add: Promise_resolve_def)
  next
    case False
    then have w': "?w = w\<lparr>promises := (promises w)(nextPromise w := Fulfilled v),
                           nextPromise := nextPromise w + 1,
                           trace := trace w @ [Fulfil (nextPromise w)]\<rparr>"
      by (simp add: Promise_resolve_value)
    have "settled_call (set (trace w)) (nextPromise w)"
      using inv_fresh_unregistered [OF assms, of "nextPromise w"]
      by (simp add: settled_call_def unregistered_def)
    then have ord: "ordered (trace ?w)"
      using assms by (simp add: w' ordered_snoc inv_ordered)
    show ?thesis
    proof (rule inv_extends [OF assms ext ord])
      show "\<And>p h q. Then p h q \<in> set (trace ?w) \<Longrightarrow> q < nextPromise ?w"
        using inv_Then [OF assms] by (fastforce simp: w')
      show "\<And>q. Fulfil q \<in> set (trace ?w) \<Longrightarrow> q < nextPromise ?w"
        using inv_Fulfil [OF assms] by (fastforce simp: w')
      show "\<And>p x. promises ?w p = Fulfilled x \<Longrightarrow> promises w p \<noteq> Fulfilled x \<Longrightarrow>
              Fulfil p \<in> set (trace ?w) \<and> \<not> is_promise x"
        using False by (auto simp: w' split: if_splits)
    qed (auto simp: w' split: if_splits)
  qed
qed

lemma Promise_then_fields:
  "fst (Promise_then p onF onR w) = nextPromise w"
  "trace (snd (Promise_then p onF onR w)) = trace w @ [Then p onF (nextPromise w)]"
  "nextPromise (snd (Promise_then p onF onR w)) = nextPromise w + 1"
  "nextAll (snd (Promise_then p onF onR w)) = nextAll w"
  "alls (snd (Promise_then p onF onR w)) = alls w"
  "externals (snd (Promise_then p onF onR w)) = externals w"
  "compDescr (snd (Promise_then p onF onR w)) = compDescr w"
  "promises (snd (Promise_then p onF onR w)) = (promises w)(nextPromise w := Pending)"
  by (simp_all add: Promise_then_def newPromise_def emit_def split: pstate.splits)

lemma Promise_then_jobs:
  "jobs (snd (Promise_then p onF onR w)) =
     (case promises w p of
        Pending \<Rightarrow> jobs w
      | Fulfilled v \<Rightarrow> jobs w @ [ReactionJob onF v (nextPromise w)]
      | Rejected v \<Rightarrow> jobs w @ [ReactionJob onR v (nextPromise w)])"
  by (simp add: Promise_then_def newPromise_def emit_def split: pstate.splits)

lemma Promise_then_reactions:
  "reactions (snd (Promise_then p onF onR w)) =
     (case promises w p of
        Pending \<Rightarrow> (reactions w)(p := reactions w p @
                       [\<lparr>onFulfilled = onF, onRejected = onR, derived = nextPromise w\<rparr>])
      | _ \<Rightarrow> reactions w)"
  by (simp add: Promise_then_def newPromise_def emit_def split: pstate.splits)

lemma Promise_then_extends: "extends w (snd (Promise_then p onF onR w))"
  by (auto simp: extends_def Promise_then_fields)

lemma Promise_then_inv:
  assumes "inv w"
    and onF: "fulfil_only onF" "handler_ok w onF"
    and onR: "\<not> fulfil_only onR" "onR = Thrower \<or> invoked onF = None"
    and res: "\<forall>q. onF = ResolveFn q \<longrightarrow> adopting (set (trace w)) q p"
    and cre: "\<forall>c d. onF = addComponent_created c d \<longrightarrow>
                (\<exists>p0. Then p0 (addComponent_create c d) p \<in> set (trace w))"
  shows "inv (snd (Promise_then p onF onR w))"
proof -
  let ?w = "snd (Promise_then p onF onR w)"
  let ?q = "nextPromise w"
  note ext = Promise_then_extends [of w p onF onR]
  have unreg: "unregistered (set (trace w)) ?q"
    using inv_fresh_unregistered [OF assms(1)] by simp
  have nofulfil: "Fulfil ?q \<notin> set (trace w)"
    using inv_Fulfil [OF assms(1), of ?q] by auto
  have ord: "ordered (trace ?w)"
    using inv_ordered [OF assms(1)] unreg nofulfil cre
    by (simp add: Promise_then_fields ordered_snoc)
  have only: "\<And>p' h0. Then p' h0 ?q \<in> set (trace ?w) \<Longrightarrow> h0 = onF \<and> p' = p"
    using unreg by (auto simp: Promise_then_fields unregistered_def)
  have hok: "handler_ok ?w onF" using onF(2) ext by (rule handler_ok_extends)
  have hokR: "handler_ok ?w onR"
    using onR(1) by (auto simp: handler_ok_def fulfil_only_def)
  show ?thesis
  proof (rule inv_extends [OF assms(1) ext ord])
    show "\<And>p h q. Then p h q \<in> set (trace ?w) \<Longrightarrow> q < nextPromise ?w"
      using inv_Then [OF assms(1)] by (fastforce simp: Promise_then_fields)
    show "\<And>q. Fulfil q \<in> set (trace ?w) \<Longrightarrow> q < nextPromise ?w"
      using inv_Fulfil [OF assms(1)] by (fastforce simp: Promise_then_fields)
    show "\<And>j. j \<in> set (jobs ?w) \<Longrightarrow> j \<notin> set (jobs w) \<Longrightarrow> job_ok ?w j"
    proof -
      fix j assume j: "j \<in> set (jobs ?w)" "j \<notin> set (jobs w)"
      show "job_ok ?w j"
      proof (cases "promises w p")
        case Pending
        with j show ?thesis by (simp add: Promise_then_jobs)
      next
        case (Fulfilled v)
        with j have jj: "j = ReactionJob onF v ?q" by (simp add: Promise_then_jobs)
        from inv_Fulfilled [OF assms(1) Fulfilled]
        have fp: "Fulfil p \<in> set (trace w)" and nv: "\<not> is_promise v" by simp_all
        have "\<forall>q'. onF = ResolveFn q' \<longrightarrow> settled_call (set (trace ?w)) q'"
        proof (intro allI impI)
          fix q' assume r: "onF = ResolveFn q'"
          with res fp have "settled_call (set (trace w)) q'"
            unfolding adopting_def settled_call_def by blast
          moreover from r onF(2) have "q' < nextPromise w" by (simp add: handler_ok_def)
          ultimately show "settled_call (set (trace ?w)) q'"
            using settled_call_extends [OF _ ext] by blast
        qed
        then show ?thesis
          using nv hok onF(1) fp
          by (auto simp: jj Promise_then_fields fulfil_only_def)
      next
        case (Rejected v)
        with j have jj: "j = ReactionJob onR v ?q" by (simp add: Promise_then_jobs)
        from inv_Rejected [OF assms(1) Rejected] have nv: "\<not> is_promise v" .
        have "\<forall>x. onR = RejectFn x \<longrightarrow>
                (\<forall>p' h0. Then p' h0 ?q \<in> set (trace ?w) \<longrightarrow> invoked h0 = None)"
          using only onR(2) by auto
        moreover have "\<forall>q'. onR \<noteq> ResolveFn q'"
          using onR(1) by (auto simp: fulfil_only_def)
        ultimately show ?thesis
          using nv hokR onR(1) by (simp add: jj Promise_then_fields)
      qed
    qed
    show "\<And>p' r. r \<in> set (reactions ?w p') \<Longrightarrow> r \<notin> set (reactions w p') \<Longrightarrow> reaction_ok ?w p' r"
    proof -
      fix p' r assume r: "r \<in> set (reactions ?w p')" "r \<notin> set (reactions w p')"
      then have pp: "p' = p" and rr: "r = \<lparr>onFulfilled = onF, onRejected = onR, derived = ?q\<rparr>"
        by (auto simp: Promise_then_reactions split: pstate.splits if_splits)
      have "\<forall>q. onF = ResolveFn q \<longrightarrow> adopting (set (trace ?w)) q p"
        using res onF(2) adopting_extends [OF _ ext] by (auto simp: handler_ok_def)
      then show "reaction_ok ?w p' r"
        using onF(1) onR hok by (simp add: reaction_ok_def pp rr Promise_then_fields)
    qed
    show "\<And>a. a < nextAll ?w \<Longrightarrow>
            \<not> (a < nextAll w \<and> capability (alls ?w a) = capability (alls w a)) \<Longrightarrow>
            capability (alls ?w a) < nextPromise ?w
            \<and> unregistered (set (trace ?w)) (capability (alls ?w a))"
      by (simp add: Promise_then_fields)
  qed (auto simp: Promise_then_fields split: if_splits)
qed

lemma FulfillPromise_extends: "extends w (FulfillPromise p v w)"
  by (auto simp: extends_def FulfillPromise_def emit_def)

lemma FulfillPromise_inv:
  assumes "inv w" "settled_call (set (trace w)) p" "\<not> is_promise v" "p < nextPromise w"
  shows "inv (FulfillPromise p v w)"
proof -
  let ?w = "FulfillPromise p v w"
  note ext = FulfillPromise_extends [of w p v]
  have tr: "trace ?w = trace w @ [Fulfil p]" by (simp add: FulfillPromise_def emit_def)
  have ord: "ordered (trace ?w)"
    using inv_ordered [OF assms(1)] assms(2) by (simp add: tr ordered_snoc)
  show ?thesis
  proof (rule inv_extends [OF assms(1) ext ord])
    show "\<And>p h q. Then p h q \<in> set (trace ?w) \<Longrightarrow> q < nextPromise ?w"
      using inv_Then [OF assms(1)] by (auto simp: FulfillPromise_def emit_def)
    show "\<And>q. Fulfil q \<in> set (trace ?w) \<Longrightarrow> q < nextPromise ?w"
      using inv_Fulfil [OF assms(1)] assms(4) by (auto simp: FulfillPromise_def emit_def)
    show "\<And>p' x. promises ?w p' = Fulfilled x \<Longrightarrow> promises w p' \<noteq> Fulfilled x \<Longrightarrow>
              Fulfil p' \<in> set (trace ?w) \<and> \<not> is_promise x"
      using assms(3) by (auto simp: FulfillPromise_def emit_def split: if_splits)
    show "\<And>j. j \<in> set (jobs ?w) \<Longrightarrow> j \<notin> set (jobs w) \<Longrightarrow> job_ok ?w j"
    proof -
      fix j assume "j \<in> set (jobs ?w)" "j \<notin> set (jobs w)"
      then obtain r where r: "r \<in> set (reactions w p)"
        and jj: "j = ReactionJob (onFulfilled r) v (derived r)"
        by (auto simp: FulfillPromise_def emit_def)
      from inv_reaction [OF assms(1) r]
      have rok: "Then p (onFulfilled r) (derived r) \<in> set (trace w)"
        "fulfil_only (onFulfilled r)" "handler_ok w (onFulfilled r)"
        "\<forall>q. onFulfilled r = ResolveFn q \<longrightarrow> adopting (set (trace w)) q p"
        by (simp_all add: reaction_ok_def)
      have d: "derived r < nextPromise w" using inv_Then [OF assms(1) rok(1)] .
      have "\<forall>q'. onFulfilled r = ResolveFn q' \<longrightarrow> settled_call (set (trace ?w)) q'"
      proof (intro allI impI)
        fix q' assume q': "onFulfilled r = ResolveFn q'"
        with rok(3) have b: "q' < nextPromise w" by (simp add: handler_ok_def)
        from q' rok(4) have "adopting (set (trace w)) q' p" by simp
        then show "settled_call (set (trace ?w)) q'"
          unfolding adopting_def settled_call_def tr
          by simp blast
      qed
      moreover have "handler_ok ?w (onFulfilled r)" using rok(3) ext by (rule handler_ok_extends)
      ultimately show "job_ok ?w j"
        using assms(3) rok(1,2) d
        by (auto simp: jj tr fulfil_only_def FulfillPromise_def emit_def)
    qed
    show "\<And>a. a < nextAll ?w \<Longrightarrow>
            \<not> (a < nextAll w \<and> capability (alls ?w a) = capability (alls w a)) \<Longrightarrow>
            capability (alls ?w a) < nextPromise ?w
            \<and> unregistered (set (trace ?w)) (capability (alls ?w a))"
      by (simp add: FulfillPromise_def emit_def)
  qed (auto simp: FulfillPromise_def emit_def split: if_splits)
qed

lemma RejectPromise_extends: "extends w (RejectPromise p v w)"
  by (auto simp: extends_def RejectPromise_def emit_def)

lemma RejectPromise_inv:
  assumes "inv w" "\<not> is_promise v"
  shows "inv (RejectPromise p v w)"
proof -
  let ?w = "RejectPromise p v w"
  note ext = RejectPromise_extends [of w p v]
  have tr: "trace ?w = trace w @ [Reject p]" by (simp add: RejectPromise_def emit_def)
  have ord: "ordered (trace ?w)"
    using inv_ordered [OF assms(1)] by (simp add: tr ordered_snoc)
  show ?thesis
  proof (rule inv_extends [OF assms(1) ext ord])
    show "\<And>p h q. Then p h q \<in> set (trace ?w) \<Longrightarrow> q < nextPromise ?w"
      using inv_Then [OF assms(1)] by (auto simp: RejectPromise_def emit_def)
    show "\<And>q. Fulfil q \<in> set (trace ?w) \<Longrightarrow> q < nextPromise ?w"
      using inv_Fulfil [OF assms(1)] by (auto simp: RejectPromise_def emit_def)
    show "\<And>p' x. promises ?w p' = Rejected x \<Longrightarrow> promises w p' \<noteq> Rejected x \<Longrightarrow> \<not> is_promise x"
      using assms(2) by (auto simp: RejectPromise_def emit_def split: if_splits)
    show "\<And>j. j \<in> set (jobs ?w) \<Longrightarrow> j \<notin> set (jobs w) \<Longrightarrow> job_ok ?w j"
    proof -
      fix j assume "j \<in> set (jobs ?w)" "j \<notin> set (jobs w)"
      then obtain r where r: "r \<in> set (reactions w p)"
        and jj: "j = ReactionJob (onRejected r) v (derived r)"
        by (auto simp: RejectPromise_def emit_def)
      from inv_reaction [OF assms(1) r]
      have rok: "Then p (onFulfilled r) (derived r) \<in> set (trace w)"
        "\<not> fulfil_only (onRejected r)"
        "onRejected r = Thrower \<or> invoked (onFulfilled r) = None"
        by (simp_all add: reaction_ok_def)
      have d: "derived r < nextPromise w" using inv_Then [OF assms(1) rok(1)] .
      have u: "\<And>p' h0. Then p' h0 (derived r) \<in> set (trace w) \<Longrightarrow> h0 = onFulfilled r"
        using ordered_Then_unique [OF inv_ordered [OF assms(1)] rok(1)] by blast
      have "\<forall>x. onRejected r = RejectFn x \<longrightarrow>
              (\<forall>p' h0. Then p' h0 (derived r) \<in> set (trace ?w) \<longrightarrow> invoked h0 = None)"
        using rok(3) u by (auto simp: tr)
      moreover have "handler_ok ?w (onRejected r)"
        using rok(2) by (auto simp: handler_ok_def fulfil_only_def)
      moreover have "\<forall>q'. onRejected r \<noteq> ResolveFn q'"
        using rok(2) by (auto simp: fulfil_only_def)
      ultimately show "job_ok ?w j"
        using assms(2) rok(2) d by (simp add: jj RejectPromise_def emit_def)
    qed
    show "\<And>a. a < nextAll ?w \<Longrightarrow>
            \<not> (a < nextAll w \<and> capability (alls ?w a) = capability (alls w a)) \<Longrightarrow>
            capability (alls ?w a) < nextPromise ?w
            \<and> unregistered (set (trace ?w)) (capability (alls ?w a))"
      by (simp add: RejectPromise_def emit_def)
  qed (auto simp: RejectPromise_def emit_def split: if_splits)
qed

lemma resolveFunction_extends: "extends w (resolveFunction p v w)"
  using FulfillPromise_extends [of w p v] RejectPromise_extends [of w p TypeError_value]
  by (auto simp: resolveFunction_def extends_refl split: jsval.splits) (simp add: extends_def)

lemma thenable_job_inv:
  assumes "inv w" "p < nextPromise w" "adopting (set (trace w)) p r"
  shows "inv (w\<lparr>jobs := jobs w @ [ThenableJob p r]\<rparr>)"
proof -
  let ?w = "w\<lparr>jobs := jobs w @ [ThenableJob p r]\<rparr>"
  have ext: "extends w ?w" by (simp add: extends_def)
  show ?thesis
    by (rule inv_extends [OF assms(1) ext])
      (use assms inv_ordered [OF assms(1)] inv_Then [OF assms(1)] inv_Fulfil [OF assms(1)]
        in \<open>auto\<close>)
qed

lemma resolveFunction_inv:
  assumes "inv w" "p < nextPromise w"
    and "case v of Promise r \<Rightarrow> adopting (set (trace w)) p r | _ \<Rightarrow> settled_call (set (trace w)) p"
  shows "inv (resolveFunction p v w)"
proof (cases "promises w p = Pending")
  case False
  then show ?thesis using assms(1) by (simp add: resolveFunction_def)
next
  case True
  show ?thesis
  proof (cases "is_promise v")
    case False
    then have "resolveFunction p v w = FulfillPromise p v w"
      using True by (cases v) (simp_all add: resolveFunction_def)
    moreover have "settled_call (set (trace w)) p" using assms(3) False by (cases v) simp_all
    ultimately show ?thesis using FulfillPromise_inv [OF assms(1) _ False assms(2)] by simp
  next
    case p: True
    then obtain r where v: "v = Promise r" by (cases v) simp_all
    show ?thesis
    proof (cases "r = p")
      case True
      then show ?thesis
        using RejectPromise_inv [OF assms(1), of TypeError_value p] \<open>promises w p = Pending\<close>
        by (simp add: resolveFunction_def v TypeError_value_def)
    next
      case False
      then show ?thesis
        using thenable_job_inv [OF assms(1,2), of r] assms(3) \<open>promises w p = Pending\<close>
        by (simp add: resolveFunction_def v)
    qed
  qed
qed

lemma rejectFunction_extends: "extends w (rejectFunction p v w)"
  using RejectPromise_extends [of w p v] by (simp add: rejectFunction_def extends_refl)

lemma rejectFunction_inv: "inv w \<Longrightarrow> \<not> is_promise v \<Longrightarrow> inv (rejectFunction p v w)"
  by (simp add: rejectFunction_def RejectPromise_inv)

lemma Promise_then_ok:
  assumes "inv w"
    and "fulfil_only onF" "handler_ok w onF"
    and "\<not> fulfil_only onR" "onR = Thrower \<or> invoked onF = None"
    and "\<forall>q. onF = ResolveFn q \<longrightarrow> adopting (set (trace w)) q p"
    and "\<forall>c d. onF = addComponent_created c d \<longrightarrow>
                (\<exists>p0. Then p0 (addComponent_create c d) p \<in> set (trace w))"
    and "Promise_then p onF onR w = (q, w')"
  shows "inv w'" "extends w w'" "Then p onF q \<in> set (trace w')"
  using Promise_then_inv [OF assms(1-7)] Promise_then_extends [of w p onF onR]
    Promise_then_fields(1,2) [of p onF onR w] assms(8)
  by simp_all

lemma Promise_resolve_ok:
  assumes "inv w" "Promise_resolve v w = (p, w')"
  shows "inv w'" "extends w w'"
  using Promise_resolve_inv(1,2) [OF assms(1), of v] assms(2) by simp_all

lemma Promise_all_element_inv:
  assumes "inv w" "a < nextAll w"
  shows "inv (Promise_all_element a R ix w) \<and> extends w (Promise_all_element a R ix w)"
proof -
  obtain p wa where pr: "Promise_resolve (snd ix) w = (p, wa)" by fastforce
  note wa = Promise_resolve_ok [OF assms(1) pr]
  obtain q wb where pt: "Promise_then p (ResolveElement a (fst ix)) (RejectFn R) wa = (q, wb)"
    by fastforce
  have "a < nextAll wa" using assms(2) wa(2) by (simp add: extends_def)
  then have "inv wb" "extends wa wb"
    using Promise_then_ok(1,2) [OF wa(1) _ _ _ _ _ _ pt]
    by (simp_all add: fulfil_only_def handler_ok_def)
  then show ?thesis
    using extends_trans [OF wa(2)] by (simp add: Promise_all_element_def pr pt)
qed

lemma fold_Promise_all_element_inv:
  "inv w \<Longrightarrow> a < nextAll w \<Longrightarrow>
     inv (fold (Promise_all_element a R) xs w) \<and> extends w (fold (Promise_all_element a R) xs w)"
proof (induction xs arbitrary: w)
  case Nil
  then show ?case by simp
next
  case (Cons x xs)
  let ?w = "Promise_all_element a R x w"
  from Promise_all_element_inv [OF Cons.prems, of R x]
  have w: "inv ?w" "extends w ?w" by simp_all
  then have "a < nextAll ?w" using Cons.prems(2) by (simp add: extends_def)
  from Cons.IH [OF w(1) this] w(2) show ?case by (auto intro: extends_trans)
qed

lemma Promise_all_inv:
  assumes "inv w" "Promise_all items w = (R, w')"
  shows "inv w'" "extends w w'"
proof -
  let ?w1 = "snd (newPromise Pending w)"
  let ?a = "nextAll w"
  let ?R = "nextPromise w"
  let ?w2 = "?w1\<lparr>alls := (alls ?w1)
                   (?a := \<lparr>elements = replicate (length items) Undefined,
                          remaining = length items, capability = ?R\<rparr>),
                 nextAll := ?a + 1\<rparr>"
  let ?w3 = "fold (Promise_all_element ?a ?R) (enumerate 0 items) ?w2"
  note w1 = newPromise_inv [OF assms(1)]
  have e12: "extends ?w1 ?w2" by (simp add: extends_def newPromise_def)
  have un: "unregistered (set (trace w)) ?R"
    using inv_fresh_unregistered [OF assms(1)] by simp
  have w2: "inv ?w2"
  proof (rule inv_extends [OF w1(1) e12])
    show "ordered (trace ?w2)" using inv_ordered [OF w1(1)] by simp
    show "\<And>p h q. Then p h q \<in> set (trace ?w2) \<Longrightarrow> q < nextPromise ?w2"
      using inv_Then [OF w1(1)] by simp
    show "\<And>q. Fulfil q \<in> set (trace ?w2) \<Longrightarrow> q < nextPromise ?w2"
      using inv_Fulfil [OF w1(1)] by simp
    show "\<And>a. a < nextAll ?w2 \<Longrightarrow>
            \<not> (a < nextAll ?w1 \<and> capability (alls ?w2 a) = capability (alls ?w1 a)) \<Longrightarrow>
            capability (alls ?w2 a) < nextPromise ?w2
            \<and> unregistered (set (trace ?w2)) (capability (alls ?w2 a))"
      using un by (auto simp: newPromise_def split: if_splits)
  qed simp_all
  have a: "?a < nextAll ?w2" by (simp add: newPromise_def)
  from fold_Promise_all_element_inv [OF w2 a, of ?R "enumerate 0 items"]
  have w3: "inv ?w3" "extends ?w2 ?w3" by simp_all
  have e3: "extends w ?w3" using w1(2) e12 w3(2) by (blast intro: extends_trans)
  have "Promise_all items w = (?R, if items = [] then resolveFunction ?R (Array []) ?w3 else ?w3)"
    by (simp add: Promise_all_def Let_def newPromise_def)
  with assms(2) have res: "w' = (if items = [] then resolveFunction ?R (Array []) ?w3 else ?w3)"
    by simp
  show "extends w w'"
    using e3 resolveFunction_extends [of ?w3 ?R "Array []"]
    by (auto simp: res intro: extends_trans)
  show "inv w'"
  proof (cases "items = []")
    case False
    then show ?thesis using w3(1) by (simp add: res)
  next
    case True
    have "settled_call (set (trace ?w2)) ?R"
      using un by (simp add: settled_call_def unregistered_def newPromise_def)
    moreover have "?R < nextPromise ?w2" by (simp add: newPromise_def)
    ultimately have "inv (resolveFunction ?R (Array []) ?w2)"
      using resolveFunction_inv [OF w2, of ?R "Array []"] by simp
    then show ?thesis using True by (simp add: res)
  qed
qed

lemma addComponent_inv:
  assumes "inv w" "addComponent prog this type descr w = (r, w')"
  shows "inv w'" "extends w w'" "\<forall>x. r = Abrupt x \<longrightarrow> \<not> is_promise x"
proof -
  show "\<forall>x. r = Abrupt x \<longrightarrow> \<not> is_promise x"
    using assms(2)
    by (auto simp: addComponent_def TypeError_value_def Let_def split: option.splits prod.splits)
  show "inv w'" "extends w w'"
  proof (atomize (full), cases "creator prog type")
    case None
    then show "inv w' \<and> extends w w'" using assms by (simp add: addComponent_def)
  next
    case (Some dru)
    obtain d r0 u where dru: "dru = (d, r0, u)" by (cases dru)
    define c where "c = nextComp w"
    define w2 where "w2 = w\<lparr>comps := (comps w)
                       (c := \<lparr>owner = this, enabled = True, ctype = type,
                                         hasDisplay = d, hasRender = r0, hasUpdate = u\<rparr>),
                     nextComp := c + 1,
                     entities := (entities w)
                       (this := (entities w this)
                          \<lparr>components := AList.update type c
                                            (components (entities w this))\<rparr>)\<rparr>"
    have e02: "extends w w2" by (simp add: extends_def w2_def)
    have i2: "inv w2"
      by (rule inv_extends [OF assms(1) e02])
        (use inv_ordered [OF assms(1)] inv_Then [OF assms(1)] inv_Fulfil [OF assms(1)]
          in \<open>auto simp: w2_def\<close>)
    obtain p0 w3 where pr: "Promise_resolve Undefined w2 = (p0, w3)" by fastforce
    note w3 = Promise_resolve_ok [OF i2 pr]
    obtain p1 w4 where t1: "Promise_then p0 (addComponent_create c descr) Thrower w3 = (p1, w4)"
      by fastforce
    have w4: "inv w4" "extends w3 w4" "Then p0 (addComponent_create c descr) p1 \<in> set (trace w4)"
      using Promise_then_ok [OF w3(1) _ _ _ _ _ _ t1]
      by (simp_all add: fulfil_only_def handler_ok_def)
    obtain p2 w5 where t2: "Promise_then p1 (addComponent_created c descr) Thrower w4 = (p2, w5)"
      by fastforce
    have w5: "inv w5" "extends w4 w5"
      using Promise_then_ok(1,2) [OF w4(1) _ _ _ _ _ _ t2] w4(3)
      by (auto simp: fulfil_only_def handler_ok_def)
    have "w' = w5"
      using assms(2) Some pr t1 t2
      by (simp add: addComponent_def dru Let_def c_def [symmetric] w2_def)
    then show "inv w' \<and> extends w w'"
      using w5 w4(2) w3(2) e02 by (blast intro: extends_trans)
  qed
qed

lemma run_actions_inv:
  "inv w \<Longrightarrow> run_actions prog acts lst w = (r, w') \<Longrightarrow>
     inv w' \<and> extends w w' \<and> (\<forall>x. r = Abrupt x \<longrightarrow> \<not> is_promise x)"
proof (induction acts arbitrary: lst w)
  case Nil
  then show ?case by auto
next
  case (Cons a acts)
  obtain e t d where a: "a = UAddComponent e t d" by (cases a)
  obtain r1 w1 where ac: "addComponent prog e t d w = (r1, w1)" by fastforce
  note w1 = addComponent_inv [OF Cons.prems(1) ac]
  show ?case
  proof (cases r1)
    case (Abrupt x)
    then show ?thesis using Cons.prems(2) w1 by (simp add: a ac)
  next
    case (Normal v)
    then have "run_actions prog acts v w1 = (r, w')" using Cons.prems(2) by (simp add: a ac)
    from Cons.IH [OF w1(1) this] w1(2) show ?thesis by (auto intro: extends_trans)
  qed
qed

lemma no_call_extends:
  "no_call (set (trace w)) q \<Longrightarrow> extends w w' \<Longrightarrow> q < nextPromise w \<Longrightarrow>
     no_call (set (trace w')) q"
  unfolding no_call_def extends_def by (metis leD)

lemma no_call_settled: "no_call T q \<Longrightarrow> settled_call T q" and
  no_call_adopting: "no_call T q \<Longrightarrow> adopting T q r"
  by (auto simp: no_call_def settled_call_def adopting_def)

lemma Then_no_call:
  "ordered t \<Longrightarrow> Then p h q \<in> set t \<Longrightarrow> invoked h = None \<Longrightarrow> no_call (set t) q"
  unfolding no_call_def using ordered_Then_unique by blast

lemma resolved_value:
  "no_call T q \<Longrightarrow> (case v of Promise r \<Rightarrow> adopting T q r | _ \<Rightarrow> settled_call T q)"
  by (cases v) (simp_all add: no_call_settled no_call_adopting)

lemma returned_value:
  assumes "ordered t" "Then p h q \<in> set t" "invoked h = Some i"
    "start q i \<in> set t" "Return q v \<in> set t"
  shows "case v of Promise r \<Rightarrow> adopting (set t) q r | _ \<Rightarrow> settled_call (set t) q"
proof -
  have u: "\<And>p' h'. Then p' h' q \<in> set t \<Longrightarrow> h' = h"
    using ordered_Then_unique [OF assms(1,2)] by blast
  show ?thesis
  proof (cases "is_promise v")
    case True
    then obtain r where v: "v = Promise r" by (cases v) simp_all
    have "adopting (set t) q r"
      unfolding adopting_def using u assms(3,4,5) v by fastforce
    then show ?thesis by (simp add: v)
  next
    case False
    have "settled_call (set t) q"
      unfolding settled_call_def
    proof (intro allI impI)
      fix p' h' i'
      assume a: "Then p' h' q \<in> set t \<and> invoked h' = Some i'"
      with u assms(3) have "i' = i" by auto
      with assms(4,5) False
      show "\<exists>v. start q i' \<in> set t \<and> Return q v \<in> set t \<and> (\<forall>r. v = Promise r \<longrightarrow> Fulfil r \<in> set t)"
        by (intro exI [of _ v]) auto
    qed
    with False show ?thesis by (cases v) simp_all
  qed
qed

lemma inv_fields:
  assumes "inv w" "trace w' = trace w" "nextPromise w' = nextPromise w" "nextAll w' = nextAll w"
    "promises w' = promises w" "reactions w' = reactions w" "set (jobs w') \<subseteq> set (jobs w)"
    "set (externals w') \<subseteq> set (externals w)"
    "\<forall>a < nextAll w. capability (alls w' a) = capability (alls w a)"
    "set (compDescr w') \<subseteq> set (compDescr w)"
  shows "inv w'"
proof -
  have ext: "extends w w'" using assms(2-4) by (simp add: extends_def)
  show ?thesis
    by (rule inv_extends [OF assms(1) ext])
      (use assms inv_ordered [OF assms(1)] inv_Then [OF assms(1)] inv_Fulfil [OF assms(1)]
        in \<open>auto\<close>)
qed

lemma external_inv:
  assumes "inv w"
  shows "inv ((snd (newPromise Pending w))\<lparr>externals := nextPromise w # externals w\<rparr>)"
proof -
  let ?w1 = "snd (newPromise Pending w)"
  let ?w = "?w1\<lparr>externals := nextPromise w # externals w\<rparr>"
  note w1 = newPromise_inv [OF assms]
  have ext: "extends ?w1 ?w" by (simp add: extends_def)
  have un: "unregistered (set (trace w)) (nextPromise w)"
    using inv_fresh_unregistered [OF assms] by simp
  show ?thesis
  proof (rule inv_extends [OF w1(1) ext])
    show "ordered (trace ?w)" using inv_ordered [OF w1(1)] by simp
    show "\<And>p h q. Then p h q \<in> set (trace ?w) \<Longrightarrow> q < nextPromise ?w"
      using inv_Then [OF w1(1)] by simp
    show "\<And>q. Fulfil q \<in> set (trace ?w) \<Longrightarrow> q < nextPromise ?w"
      using inv_Fulfil [OF w1(1)] by simp
    show "\<And>p. p \<in> set (externals ?w) \<Longrightarrow> p \<notin> set (externals ?w1) \<Longrightarrow>
           p < nextPromise ?w \<and> unregistered (set (trace ?w)) p"
      using un by (auto simp: newPromise_def)
  qed simp_all
qed

lemma call_method_inv:
  assumes "inv w"
    and "\<exists>p h. Then p h q \<in> set (trace w) \<and> Fulfil p \<in> set (trace w) \<and> runs h (Method m c)"
    and "m = Setup \<longrightarrow> Enqueue c \<in> set (trace w)"
    and "call_method prog q m c arg w = (r, w')"
  shows "inv w'" "extends w w'"
    "\<forall>v. r = Normal v \<longrightarrow> Call q m c \<in> set (trace w') \<and> Return q v \<in> set (trace w')"
    "\<forall>x. r = Abrupt x \<longrightarrow> \<not> is_promise x"
proof -
  obtain acts ret where b: "behaviour prog m c arg w = Behaviour acts ret"
    by (cases "behaviour prog m c arg w")
  let ?w0 = "emit (Call q m c) w"
  have i0: "inv ?w0" using assms(1-3) by (intro emit_inv) auto
  have e0: "extends w ?w0" by (simp add: emit_extends)
  have c0: "Call q m c \<in> set (trace ?w0)" by (simp add: emit_def)
  obtain r1 w1 where ra: "run_actions prog acts Undefined ?w0 = (r1, w1)" by fastforce
  from run_actions_inv [OF i0 ra]
  have w1: "inv w1" "extends ?w0 w1" "\<forall>x. r1 = Abrupt x \<longrightarrow> \<not> is_promise x" by simp_all
  have e1: "extends w w1" using e0 w1(2) by (rule extends_trans)
  have c1: "Call q m c \<in> set (trace w1)" using c0 w1(2) by (auto simp: extends_def)
  have ret_inv: "\<And>v. inv (emit (Return q v) w1) \<and> extends w (emit (Return q v) w1)
                   \<and> Call q m c \<in> set (trace (emit (Return q v) w1))
                   \<and> Return q v \<in> set (trace (emit (Return q v) w1))"
    using emit_inv [OF w1(1)] extends_trans [OF e1 emit_extends] c1 by (simp add: emit_def)
  have thr_inv: "\<And>v. inv (emit (Throws q v) w1) \<and> extends w (emit (Throws q v) w1)"
    using emit_inv [OF w1(1)] extends_trans [OF e1 emit_extends] by simp
  have all: "inv w' \<and> extends w w'
      \<and> (\<forall>v. r = Normal v \<longrightarrow> Call q m c \<in> set (trace w') \<and> Return q v \<in> set (trace w'))
      \<and> (\<forall>x. r = Abrupt x \<longrightarrow> \<not> is_promise x)"
  proof (cases r1)
    case (Abrupt x)
    then have "r = Abrupt x" "w' = emit (Throws q x) w1"
      using assms(4) by (simp_all add: call_method_def b ra)
    then show ?thesis using thr_inv [of x] w1(3) Abrupt by simp
  next
    case (Normal lst)
    show ?thesis
    proof (cases ret)
      case RetUndefined
      then have "r = Normal Undefined" "w' = emit (Return q Undefined) w1"
        using assms(4) Normal by (simp_all add: call_method_def b ra)
      then show ?thesis using ret_inv [of Undefined] by simp
    next
      case RetThrow
      then have "r = Abrupt (Str ''Error'')" "w' = emit (Throws q (Str ''Error'')) w1"
        using assms(4) Normal by (simp_all add: call_method_def b ra)
      then show ?thesis using thr_inv [of "Str ''Error''"] by simp
    next
      case RetLast
      then have "r = Normal lst" "w' = emit (Return q lst) w1"
        using assms(4) Normal by (simp_all add: call_method_def b ra)
      then show ?thesis using ret_inv [of lst] by simp
    next
      case RetExternal
      let ?w2 = "(snd (newPromise Pending w1))\<lparr>externals := nextPromise w1 # externals w1\<rparr>"
      let ?v = "Promise (nextPromise w1)"
      have rw: "r = Normal ?v" "w' = emit (Return q ?v) ?w2"
        using assms(4) Normal RetExternal
        by (simp_all add: call_method_def b ra newPromise_def)
      have i2: "inv ?w2" using w1(1) by (rule external_inv)
      have e2: "extends w1 ?w2" by (simp add: extends_def newPromise_def)
      have "inv (emit (Return q ?v) ?w2)" using emit_inv [OF i2] by simp
      moreover have "extends w (emit (Return q ?v) ?w2)"
        using e1 e2 emit_extends [of "Return q ?v" ?w2] by (blast intro: extends_trans)
      moreover have "Call q m c \<in> set (trace (emit (Return q ?v) ?w2))"
        using c1 by (simp add: emit_def newPromise_def)
      ultimately show ?thesis by (simp add: rw) (simp add: emit_def)
    qed
  qed
  then show "inv w'" "extends w w'"
    "\<forall>v. r = Normal v \<longrightarrow> Call q m c \<in> set (trace w') \<and> Return q v \<in> set (trace w')"
    "\<forall>x. r = Abrupt x \<longrightarrow> \<not> is_promise x"
    by simp_all
qed

lemma setupMissing_callback_inv:
  assumes "inv (snd acc)" "Enqueue (fst cd) \<in> set (trace (snd acc))"
  shows "inv (snd (setupMissing_callback cd acc))
         \<and> extends (snd acc) (snd (setupMissing_callback cd acc))"
proof -
  obtain p0 wa where pr: "Promise_resolve Undefined (snd acc) = (p0, wa)" by fastforce
  note wa = Promise_resolve_ok [OF assms(1) pr]
  have en: "Enqueue (fst cd) \<in> set (trace wa)" using assms(2) wa(2) by (auto simp: extends_def)
  obtain p1 wb where t1: "Promise_then p0 (setupMissing_setup (fst cd) (snd cd)) Thrower wa = (p1, wb)"
    by fastforce
  have wb: "inv wb" "extends wa wb"
    using Promise_then_ok(1,2) [OF wa(1) _ _ _ _ _ _ t1] en
    by (simp_all add: fulfil_only_def handler_ok_def)
  obtain p2 wc where t2: "Promise_then p1 (setupMissing_delete (fst cd)) Thrower wb = (p2, wc)"
    by fastforce
  have wc: "inv wc" "extends wb wc"
    using Promise_then_ok(1,2) [OF wb(1) _ _ _ _ _ _ t2]
    by (simp_all add: fulfil_only_def handler_ok_def)
  have "snd (setupMissing_callback cd acc) = wc"
    by (simp add: setupMissing_callback_def pr t1 t2)
  then show ?thesis using wa(2) wb wc by (auto intro: extends_trans)
qed

lemma fold_setupMissing_callback_inv:
  "inv (snd acc) \<Longrightarrow> \<forall>cd \<in> set cds. Enqueue (fst cd) \<in> set (trace (snd acc)) \<Longrightarrow>
     inv (snd (fold setupMissing_callback cds acc))
     \<and> extends (snd acc) (snd (fold setupMissing_callback cds acc))"
proof (induction cds arbitrary: acc)
  case Nil
  then show ?case by simp
next
  case (Cons cd cds)
  let ?a = "setupMissing_callback cd acc"
  from setupMissing_callback_inv [OF Cons.prems(1), of cd] Cons.prems(2)
  have a: "inv (snd ?a)" "extends (snd acc) (snd ?a)" by simp_all
  have "\<forall>cd \<in> set cds. Enqueue (fst cd) \<in> set (trace (snd ?a))"
    using Cons.prems(2) a(2) by (auto simp: extends_def)
  from Cons.IH [OF a(1) this] a(2) show ?case by (auto intro: extends_trans)
qed

lemma setupMissing_inv:
  assumes "inv w" "setupMissing w = (p, w')"
  shows "inv w'" "extends w w'"
proof -
  obtain ps w1 where f: "fold setupMissing_callback (compDescr w) ([], w) = (ps, w1)" by fastforce
  from fold_setupMissing_callback_inv [of "([], w)" "compDescr w"] assms(1)
    inv_compDescr [OF assms(1)]
  have w1: "inv w1" "extends w w1" by (simp_all add: f)
  have pa: "Promise_all ps w1 = (p, w')" using assms(2) by (simp add: setupMissing_def f)
  from Promise_all_inv [OF w1(1) pa] w1(2)
  show "inv w'" "extends w w'" by (auto intro: extends_trans)
qed

lemma refresh_inv:
  assumes "inv w" "refresh w = (v, w')"
  shows "inv w'" "extends w w'"
proof (atomize (full), cases "length (compDescr w) > 0")
  case False
  then show "inv w' \<and> extends w w'" using assms by (simp add: refresh_def refreshLoop_def)
next
  case True
  obtain p w1 where s: "setupMissing w = (p, w1)" by fastforce
  note w1 = setupMissing_inv [OF assms(1) s]
  obtain p' w2 where t: "Promise_then p refresh_again Thrower w1 = (p', w2)" by fastforce
  have w2: "inv w2" "extends w1 w2"
    using Promise_then_ok(1,2) [OF w1(1) _ _ _ _ _ _ t]
    by (simp_all add: fulfil_only_def handler_ok_def)
  have "w' = w2" using assms(2) True by (simp add: refresh_def refreshLoop_def s t)
  then show "inv w' \<and> extends w w'" using w1(2) w2 by (auto intro: extends_trans)
qed

lemma fold_chain_call_inv:
  assumes h: "h = Display_display \<or> h = Display_render"
  shows "inv (snd pw) \<Longrightarrow>
     inv (snd (fold (chain_call h dT) cs pw)) \<and> extends (snd pw) (snd (fold (chain_call h dT) cs pw))"
proof (induction cs arbitrary: pw)
  case Nil
  then show ?case by simp
next
  case (Cons c cs)
  let ?a = "chain_call h dT c pw"
  have a: "inv (snd ?a)" "extends (snd pw) (snd ?a)"
    using Promise_then_inv [OF Cons.prems, of "h c dT" Thrower "fst pw"]
      Promise_then_extends [of "snd pw" "fst pw" "h c dT" Thrower] h
    by (auto simp: chain_call_def fulfil_only_def handler_ok_def)
  from Cons.IH [OF a(1)] a(2) show ?case by (auto intro: extends_trans)
qed

lemma Logic_calls_inv:
  "inv w \<Longrightarrow> Then p0 (Logic_updates a timing) q \<in> set (trace w) \<Longrightarrow> Fulfil p0 \<in> set (trace w) \<Longrightarrow>
   Logic_calls prog q cs timing p w = (r, w') \<Longrightarrow>
     inv w' \<and> extends w w' \<and> (\<forall>x. r = Inl x \<longrightarrow> \<not> is_promise x)"
proof (induction cs arbitrary: p w)
  case Nil
  then show ?case by auto
next
  case (Cons c cs)
  obtain r1 w1 where cm: "call_method prog q Update c timing w = (r1, w1)" by fastforce
  have "\<exists>p h. Then p h q \<in> set (trace w) \<and> Fulfil p \<in> set (trace w) \<and> runs h (Method Update c)"
    using Cons.prems(2,3) by (auto simp: runs_def)
  from call_method_inv [OF Cons.prems(1) this _ cm]
  have w1: "inv w1" "extends w w1" "\<forall>x. r1 = Abrupt x \<longrightarrow> \<not> is_promise x" by simp_all
  show ?case
  proof (cases r1)
    case (Abrupt x)
    then show ?thesis using Cons.prems(4) w1 by (auto simp: cm)
  next
    case (Normal v)
    then have lc: "Logic_calls prog q cs timing (p @ [v]) w1 = (r, w')"
      using Cons.prems(4) by (simp add: cm)
    have "Then p0 (Logic_updates a timing) q \<in> set (trace w1)" "Fulfil p0 \<in> set (trace w1)"
      using Cons.prems(2,3) w1(2) by (auto simp: extends_def)
    from Cons.IH [OF w1(1) this lc] w1(2)
    show ?thesis by (auto intro: extends_trans)
  qed
qed

lemma handler_post_no_call:
  assumes "inv w'" "extends w w'" "no_call (set (trace w)) q" "q < nextPromise w"
  shows "handler_post q w (Normal v, w')"
  using assms resolved_value [OF no_call_extends [OF assms(3,2,4)], of v]
  by (simp add: handler_post_def resolvable_def)

lemma handler_post_call:
  assumes "inv w" "Then p h q \<in> set (trace w)" "Fulfil p \<in> set (trace w)"
    "invoked h = Some (Method m c)" "m = Setup \<longrightarrow> Enqueue c \<in> set (trace w)"
  shows "handler_post q w (call_method prog q m c arg w)"
proof -
  obtain r w' where cm: "call_method prog q m c arg w = (r, w')" by fastforce
  have "\<exists>p h. Then p h q \<in> set (trace w) \<and> Fulfil p \<in> set (trace w) \<and> runs h (Method m c)"
    using assms(2,3,4) by (auto simp: runs_def)
  note w' = call_method_inv [OF assms(1) this assms(5) cm]
  have th: "Then p h q \<in> set (trace w')" using assms(2) w'(2) by (auto simp: extends_def)
  show ?thesis
  proof (cases r)
    case (Abrupt x)
    then show ?thesis using w' by (simp add: handler_post_def cm)
  next
    case (Normal v)
    with w'(3) have "start q (Method m c) \<in> set (trace w')" "Return q v \<in> set (trace w')"
      by simp_all
    from returned_value [OF inv_ordered [OF w'(1)] th assms(4) this]
    show ?thesis using w'(1,2) Normal by (simp add: handler_post_def cm resolvable_def)
  qed
qed

lemma resolveFunction_resolvable:
  "inv w \<Longrightarrow> p < nextPromise w \<Longrightarrow> resolvable (set (trace w)) p v \<Longrightarrow> inv (resolveFunction p v w)"
  using resolveFunction_inv [of w p v] by (simp add: resolvable_def)

lemma set_AList_update: "x \<in> set (AList.update k v al) \<Longrightarrow> x \<in> set al \<or> x = (k, v)"
  by (induction al) (auto split: if_splits)

lemma set_AList_delete: "set (AList.delete k al) \<subseteq> set al"
  by (auto simp: AList.delete_eq)

lemma onComponentCreated_inv:
  assumes "inv w" "Then p (addComponent_created c d) q \<in> set (trace w)" "Fulfil p \<in> set (trace w)"
  shows "inv (onComponentCreated c d w)" "extends w (onComponentCreated c d w)"
proof -
  let ?w = "onComponentCreated c d w"
  show ext: "extends w ?w" by (auto simp: extends_def onComponentCreated_def emit_def)
  have tr: "trace ?w = trace w @ [Enqueue c]" by (simp add: onComponentCreated_def emit_def)
  have ord: "ordered (trace ?w)"
    using inv_ordered [OF assms(1)] assms(2,3) by (auto simp: tr ordered_snoc)
  show "inv ?w"
  proof (rule inv_extends [OF assms(1) ext ord])
    show "\<And>p h q. Then p h q \<in> set (trace ?w) \<Longrightarrow> q < nextPromise ?w"
      using inv_Then [OF assms(1)] by (auto simp: onComponentCreated_def emit_def)
    show "\<And>q. Fulfil q \<in> set (trace ?w) \<Longrightarrow> q < nextPromise ?w"
      using inv_Fulfil [OF assms(1)] by (auto simp: onComponentCreated_def emit_def)
    show "\<And>cd. cd \<in> set (compDescr ?w) \<Longrightarrow> cd \<notin> set (compDescr w) \<Longrightarrow> Enqueue (fst cd) \<in> set (trace ?w)"
    proof -
      fix cd assume "cd \<in> set (compDescr ?w)" "cd \<notin> set (compDescr w)"
      then have "cd = (c, d)"
        using set_AList_update [of cd c d "compDescr w"]
        by (simp add: onComponentCreated_def emit_def)
      then show "Enqueue (fst cd) \<in> set (trace ?w)" by (simp add: tr)
    qed
  qed (auto simp: onComponentCreated_def emit_def)
qed

lemma ResolveElement_inv:
  assumes "inv w" "a < nextAll w"
  shows "inv (snd (run_handler prog (ResolveElement a i) arg q w))"
    "extends w (snd (run_handler prog (ResolveElement a i) arg q w))"
    "fst (run_handler prog (ResolveElement a i) arg q w) = Normal Undefined"
proof -
  let ?r = "alls w a"
  let ?vals = "(elements ?r)[i := arg]"
  let ?w1 = "\<lambda>n. w\<lparr>alls := (alls w)(a := ?r\<lparr>elements := ?vals, remaining := n\<rparr>)\<rparr>"
  have i1: "inv (?w1 n)" for n by (rule inv_fields [OF assms(1)]) simp_all
  have e1: "extends w (?w1 n)" for n by (simp add: extends_def)
  have cap: "capability ?r < nextPromise (?w1 n)"
    "unregistered (set (trace (?w1 n))) (capability ?r)" for n
    using inv_all [OF assms] by simp_all
  then have "resolvable (set (trace (?w1 n))) (capability ?r) (Array ?vals)" for n
    by (simp add: resolvable_def settled_call_def unregistered_def)
  from resolveFunction_resolvable [OF i1 cap(1) this]
  have i2: "inv (resolveFunction (capability ?r) (Array ?vals) (?w1 n))" for n .
  have e2: "extends w (resolveFunction (capability ?r) (Array ?vals) (?w1 n))" for n
    using extends_trans [OF e1 resolveFunction_extends] .
  show "inv (snd (run_handler prog (ResolveElement a i) arg q w))"
    using i1 i2 by (simp add: run_handler_def Let_def)
  show "extends w (snd (run_handler prog (ResolveElement a i) arg q w))"
    using e1 e2 by (simp add: run_handler_def Let_def)
  show "fst (run_handler prog (ResolveElement a i) arg q w) = Normal Undefined"
    by (simp add: run_handler_def Let_def)
qed

lemma simple_then_inv:
  assumes "inv w" "fulfil_only h" "handler_ok w h" "\<forall>q. h \<noteq> ResolveFn q"
    "\<forall>c d. h \<noteq> addComponent_created c d"
  shows "inv (snd (Promise_then p h Thrower w))" "extends w (snd (Promise_then p h Thrower w))"
  using Promise_then_inv [OF assms(1,2,3), of Thrower p] assms(4,5)
    Promise_then_extends [of w p h Thrower]
  by (simp_all add: fulfil_only_def)

lemma arrays_inv: "inv w \<Longrightarrow> inv (w\<lparr>arrays := A\<rparr>)"
  by (rule inv_fields) auto

lemma fold_Display_walkFn_callback_arrays:
  "\<exists>A'. fold (Display_walkFn_callback a1 a2) xs (w\<lparr>arrays := A\<rparr>) = w\<lparr>arrays := A'\<rparr>"
proof (induction xs arbitrary: A)
  case Nil
  show ?case by auto
next
  case (Cons x xs)
  have "\<exists>B. Display_walkFn_callback a1 a2 x (w\<lparr>arrays := A\<rparr>) = w\<lparr>arrays := B\<rparr>"
    by (auto simp: Display_walkFn_callback_def push_def Let_def)
  then obtain B where "Display_walkFn_callback a1 a2 x (w\<lparr>arrays := A\<rparr>) = w\<lparr>arrays := B\<rparr>" ..
  with Cons.IH [of B] show ?case by simp
qed

lemma fold_Logic_walkFn_callback_arrays:
  "\<exists>A'. fold (Logic_walkFn_callback a) xs (w\<lparr>arrays := A\<rparr>) = w\<lparr>arrays := A'\<rparr>"
proof (induction xs arbitrary: A)
  case Nil
  show ?case by auto
next
  case (Cons x xs)
  have "\<exists>B. Logic_walkFn_callback a x (w\<lparr>arrays := A\<rparr>) = w\<lparr>arrays := B\<rparr>"
    by (auto simp: Logic_walkFn_callback_def push_def Let_def)
  then obtain B where "Logic_walkFn_callback a x (w\<lparr>arrays := A\<rparr>) = w\<lparr>arrays := B\<rparr>" ..
  with Cons.IH [of B] show ?case by simp
qed

lemma call_walkFn_inv:
  assumes "inv w" "call_walkFn fn c k w = (p, w')"
  shows "inv w'" "extends w w'"
proof -
  have "\<exists>A. call_walkFn fn c k w = Promise_resolve Undefined (w\<lparr>arrays := A\<rparr>)"
  proof (cases fn)
    case (Display_walkIterFn a1 a2)
    have "\<exists>A. fold (Display_walkFn_callback a1 a2) (components (entities w c))
                (w\<lparr>arrays := arrays w\<rparr>) = w\<lparr>arrays := A\<rparr>"
      by (rule fold_Display_walkFn_callback_arrays)
    then obtain A where "fold (Display_walkFn_callback a1 a2) (components (entities w c)) w = w\<lparr>arrays := A\<rparr>"
      by auto
    then show ?thesis
      by (intro exI [of _ A]) (simp add: call_walkFn_def Display_walkFn_def Display_walkIterFn)
  next
    case (Logic_walkIterFn a)
    have "\<exists>A. fold (Logic_walkFn_callback a) (components (entities w c))
                (w\<lparr>arrays := arrays w\<rparr>) = w\<lparr>arrays := A\<rparr>"
      by (rule fold_Logic_walkFn_callback_arrays)
    then obtain A where "fold (Logic_walkFn_callback a) (components (entities w c)) w = w\<lparr>arrays := A\<rparr>"
      by auto
    then show ?thesis
      by (intro exI [of _ A]) (simp add: call_walkFn_def Logic_walkFn_def Logic_walkIterFn)
  qed
  then obtain A where A: "Promise_resolve Undefined (w\<lparr>arrays := A\<rparr>) = (p, w')"
    using assms(2) by auto
  have "extends w (w\<lparr>arrays := A\<rparr>)" by (simp add: extends_def)
  with Promise_resolve_ok [OF arrays_inv [OF assms(1)] A]
  show "inv w'" "extends w w'" by (auto intro: extends_trans)
qed

lemma walkRecursive_callback_inv:
  assumes "inv (snd pw)"
  shows "inv (snd (walkRecursive_callback fn oa ck pw))
         \<and> extends (snd pw) (snd (walkRecursive_callback fn oa ck pw))"
proof -
  let ?h1 = "walkRecursive_fn fn (fst ck) (snd ck)"
  let ?h2 = "walkRecursive_rec fn (fst ck) (snd ck) oa"
  obtain p1 w1 where t1: "Promise_then (fst pw) ?h1 Thrower (snd pw) = (p1, w1)" by fastforce
  from simple_then_inv [OF assms, of ?h1 "fst pw"]
  have w1: "inv w1" "extends (snd pw) w1" by (simp_all add: t1 fulfil_only_def handler_ok_def)
  from simple_then_inv [OF w1(1), of ?h2 p1]
  have "inv (snd (Promise_then p1 ?h2 Thrower w1))" "extends w1 (snd (Promise_then p1 ?h2 Thrower w1))"
    by (simp_all add: fulfil_only_def handler_ok_def)
  then show ?thesis
    using w1(2) by (auto simp: walkRecursive_callback_def t1 intro: extends_trans)
qed

lemma fold_walkRecursive_callback_inv:
  "inv (snd pw) \<Longrightarrow>
     inv (snd (fold (walkRecursive_callback fn oa) cks pw))
     \<and> extends (snd pw) (snd (fold (walkRecursive_callback fn oa) cks pw))"
proof (induction cks arbitrary: pw)
  case Nil
  then show ?case by simp
next
  case (Cons ck cks)
  from walkRecursive_callback_inv [OF Cons.prems, of fn oa ck]
  have a: "inv (snd (walkRecursive_callback fn oa ck pw))"
    "extends (snd pw) (snd (walkRecursive_callback fn oa ck pw))" by simp_all
  from Cons.IH [OF a(1)] a(2) show ?case by (auto intro: extends_trans)
qed

lemma Scene_walkRecursive_inv:
  assumes "inv w" "Scene_walkRecursive fn e nm oa w = (p, w')"
  shows "inv w'" "extends w w'"
proof -
  obtain p0 w1 where pr: "Promise_resolve Undefined w = (p0, w1)" by fastforce
  note w1 = Promise_resolve_ok [OF assms(1) pr]
  from fold_walkRecursive_callback_inv [of "(p0, w1)" fn oa "walkChildren e (entities w1)"] w1(1)
  have f: "inv (snd (fold (walkRecursive_callback fn oa) (walkChildren e (entities w1)) (p0, w1)))"
    "extends w1 (snd (fold (walkRecursive_callback fn oa) (walkChildren e (entities w1)) (p0, w1)))"
    by simp_all
  have "w' = w1 \<or> w' = snd (fold (walkRecursive_callback fn oa) (walkChildren e (entities w1)) (p0, w1))"
    using assms(2) by (auto simp: Scene_walkRecursive_def pr split: if_splits)
  then show "inv w'" "extends w w'" using w1 f by (auto intro: extends_trans)
qed

lemma Scene_walk_inv: "inv w \<Longrightarrow> inv (snd (Scene_walk fn oa w))"
  unfolding Scene_walk_def using Scene_walkRecursive_inv(1) by (metis prod.collapse)

lemma handler_post_return:
  assumes "inv w'" "extends w w'" "Then p h q \<in> set (trace w)" "invoked h = Some i"
    "start q i \<in> set (trace w')" "Return q v \<in> set (trace w')"
  shows "handler_post q w (Normal v, w')"
proof -
  have "Then p h q \<in> set (trace w')" using assms(2,3) by (auto simp: extends_def)
  from returned_value [OF inv_ordered [OF assms(1)] this assms(4,5,6)]
  show ?thesis using assms(1,2) by (simp add: handler_post_def resolvable_def)
qed

text \<open>A handler of a walk: the event of its call, the call, the event of its return.\<close>

lemma handler_post_walk:
  assumes "inv w" "Then p h q \<in> set (trace w)" "Fulfil p \<in> set (trace w)" "invoked h = Some i"
    "\<exists>c k. i = Fn c k \<or> i = Rec c k"
    and body: "\<And>w0. inv w0 \<Longrightarrow> inv (snd (f w0)) \<and> extends w0 (snd (f w0))"
  shows "handler_post q w
           (Normal (Promise (fst (f (emit (start q i) w)))),
            emit (Return q (Promise (fst (f (emit (start q i) w))))) (snd (f (emit (start q i) w))))"
proof -
  let ?w0 = "emit (start q i) w"
  let ?w1 = "snd (f ?w0)"
  let ?v = "Promise (fst (f ?w0))"
  let ?w2 = "emit (Return q ?v) ?w1"
  have "runs h i" using assms(4) by (simp add: runs_def)
  with assms(2,3) have "\<exists>p h. Then p h q \<in> set (trace w) \<and> Fulfil p \<in> set (trace w) \<and> runs h i"
    by blast
  with assms(5) have j: "justified (set (trace w)) (start q i)"
    by (elim exE disjE; simp; blast)
  have nt: "\<forall>p h q'. start q i \<noteq> Then p h q'" "\<forall>q'. start q i = Fulfil q' \<longrightarrow> q' < nextPromise w"
    using assms(5) by auto
  have i0: "inv ?w0" using assms(1) j nt by (rule emit_inv)
  have e0: "extends w ?w0" using nt(1) by (rule emit_extends)
  from body [OF i0] have w1: "inv ?w1" "extends ?w0 ?w1" by simp_all
  have i2: "inv ?w2" using emit_inv [OF w1(1), of "Return q ?v"] by simp
  have e2: "extends ?w1 ?w2" by (simp add: emit_extends)
  have e: "extends w ?w2" using e0 w1(2) e2 by (blast intro: extends_trans)
  have "start q i \<in> set (trace ?w0)" by (simp add: emit_def)
  then have "start q i \<in> set (trace ?w2)" using w1(2) e2 by (auto simp: extends_def)
  moreover have "Return q ?v \<in> set (trace ?w2)" by (simp add: emit_def)
  ultimately show ?thesis
    using handler_post_return [OF i2 e assms(2,4)] by simp
qed

lemma run_handler_inv:
  assumes "inv w" "job_ok w (ReactionJob h arg q)"
  shows "handler_post q w (run_handler prog h arg q w)"
proof -
  from assms(2) have arg: "\<not> is_promise arg" and hok: "handler_ok w h" and q: "q < nextPromise w"
    and ful: "fulfil_only h \<longrightarrow> (\<exists>p. Then p h q \<in> set (trace w) \<and> Fulfil p \<in> set (trace w))"
    and rej: "\<forall>x. h = RejectFn x \<longrightarrow> no_call (set (trace w)) q"
    and res: "\<forall>q'. h = ResolveFn q' \<longrightarrow> settled_call (set (trace w)) q'"
    by (simp_all add: no_call_def)
  have nc: "fulfil_only h \<Longrightarrow> invoked h = None \<Longrightarrow> no_call (set (trace w)) q"
    using ful Then_no_call [OF inv_ordered [OF assms(1)]] by blast
  have call: "\<And>m c arg'. fulfil_only h \<Longrightarrow> invoked h = Some (Method m c) \<Longrightarrow>
                 (m = Setup \<longrightarrow> Enqueue c \<in> set (trace w)) \<Longrightarrow>
                 handler_post q w (call_method prog q m c arg' w)"
    using ful handler_post_call [OF assms(1)] by blast
  have post: "\<And>v w'. inv w' \<Longrightarrow> extends w w' \<Longrightarrow> fulfil_only h \<Longrightarrow> invoked h = None \<Longrightarrow>
                 handler_post q w (Normal v, w')"
    using handler_post_no_call nc q by blast
  show ?thesis
  proof (cases h)
    case (addComponent_create c d)
    then show ?thesis using call [of Create c d] by (simp add: run_handler_def fulfil_only_def)
  next
    case (setupMissing_setup c d)
    then show ?thesis
      using call [of Setup c d] hok by (simp add: run_handler_def fulfil_only_def handler_ok_def)
  next
    case (Display_display c d)
    then show ?thesis using call [of Display c d] by (simp add: run_handler_def fulfil_only_def)
  next
    case (Display_render c d)
    then show ?thesis using call [of Render c d] by (simp add: run_handler_def fulfil_only_def)
  next
    case (addComponent_created c d)
    with ful obtain p where "Then p (addComponent_created c d) q \<in> set (trace w)"
      "Fulfil p \<in> set (trace w)" by (auto simp: fulfil_only_def)
    from onComponentCreated_inv [OF assms(1) this]
    show ?thesis
      using post [of "onComponentCreated c d w"] addComponent_created
      by (simp add: run_handler_def fulfil_only_def)
  next
    case (setupMissing_delete c)
    let ?w = "w\<lparr>compDescr := AList.delete c (compDescr w)\<rparr>"
    have "inv ?w" by (rule inv_fields [OF assms(1)]) (simp_all add: set_AList_delete)
    moreover have "extends w ?w" by (simp add: extends_def)
    ultimately show ?thesis
      using post [of ?w] setupMissing_delete by (simp add: run_handler_def fulfil_only_def)
  next
    case refresh_again
    obtain v w' where r: "refresh w = (v, w')" by fastforce
    from refresh_inv [OF assms(1) r] show ?thesis
      using post [of w'] refresh_again by (simp add: run_handler_def fulfil_only_def r)
  next
    case SceneMgr_refresh
    obtain v w' where r: "refresh w = (v, w')" by fastforce
    from refresh_inv [OF assms(1) r] show ?thesis
      using post [of w'] SceneMgr_refresh by (simp add: run_handler_def fulfil_only_def r)
  next
    case (walkRecursive_fn fn c k)
    with ful obtain p where th: "Then p h q \<in> set (trace w)" "Fulfil p \<in> set (trace w)"
      by (auto simp: fulfil_only_def)
    have "\<And>w0. inv w0 \<Longrightarrow> inv (snd (call_walkFn fn c k w0)) \<and> extends w0 (snd (call_walkFn fn c k w0))"
      using call_walkFn_inv by (metis prod.collapse)
    from handler_post_walk [OF assms(1) th, of "Fn c k" "call_walkFn fn c k", OF _ _ this]
    show ?thesis
      using walkRecursive_fn by (simp add: run_handler_def case_prod_beta)
  next
    case (walkRecursive_rec fn c k oa)
    with ful obtain p where th: "Then p h q \<in> set (trace w)" "Fulfil p \<in> set (trace w)"
      by (auto simp: fulfil_only_def)
    have "\<And>w0. inv w0 \<Longrightarrow> inv (snd (Scene_walkRecursive fn c k oa w0))
                       \<and> extends w0 (snd (Scene_walkRecursive fn c k oa w0))"
      using Scene_walkRecursive_inv by (metis prod.collapse)
    from handler_post_walk [OF assms(1) th, of "Rec c k" "Scene_walkRecursive fn c k oa", OF _ _ this]
    show ?thesis
      using walkRecursive_rec by (simp add: run_handler_def case_prod_beta)
  next
    case (Display_calls p0 a1 a2 dT)
    obtain p1 w1 where f1: "fold (chain_call Display_display dT) (arrays w a1) (p0, w) = (p1, w1)"
      by fastforce
    obtain p2 w2 where f2: "fold (chain_call Display_render dT) (arrays w1 a2) (p1, w1) = (p2, w2)"
      by fastforce
    from fold_chain_call_inv [of Display_display "(p0, w)" dT "arrays w a1"] assms(1)
    have w1: "inv w1" "extends w w1" by (simp_all add: f1)
    from fold_chain_call_inv [of Display_render "(p1, w1)" dT "arrays w1 a2"] w1(1)
    have w2: "inv w2" "extends w1 w2" by (simp_all add: f2)
    have "extends w w2" using w1(2) w2(2) by (rule extends_trans)
    then show ?thesis
      using post [of w2] w2(1) Display_calls by (simp add: run_handler_def fulfil_only_def f1 f2)
  next
    case (Logic_updates a timing)
    with ful obtain p0 where th: "Then p0 (Logic_updates a timing) q \<in> set (trace w)"
      "Fulfil p0 \<in> set (trace w)" by (auto simp: fulfil_only_def)
    obtain r w1 where lc: "Logic_calls prog q (arrays w a) timing [] w = (r, w1)" by fastforce
    from Logic_calls_inv [OF assms(1) th lc]
    have w1: "inv w1" "extends w w1" "\<forall>x. r = Inl x \<longrightarrow> \<not> is_promise x" by simp_all
    show ?thesis
    proof (cases r)
      case (Inl x)
      then show ?thesis
        using w1 Logic_updates by (simp add: run_handler_def lc handler_post_def)
    next
      case (Inr ps)
      obtain R w2 where pa: "Promise_all ps w1 = (R, w2)" by fastforce
      from Promise_all_inv [OF w1(1) pa] have w2: "inv w2" "extends w1 w2" by simp_all
      have "extends w w2" using w1(2) w2(2) by (rule extends_trans)
      then show ?thesis
        using post [of w2] w2(1) Logic_updates Inr
        by (simp add: run_handler_def fulfil_only_def lc pa)
    qed
  next
    case (ResolveFn p)
    with res hok have "settled_call (set (trace w)) p" "p < nextPromise w"
      by (simp_all add: handler_ok_def)
    then have "inv (resolveFunction p arg w)"
      using resolveFunction_inv [OF assms(1), of p arg] arg by (cases arg) simp_all
    then show ?thesis
      using post [of "resolveFunction p arg w"] resolveFunction_extends [of w p arg] ResolveFn
      by (simp add: run_handler_def fulfil_only_def)
  next
    case (RejectFn p)
    have "inv (rejectFunction p arg w)" using assms(1) arg by (rule rejectFunction_inv)
    then show ?thesis
      using handler_post_no_call [of "rejectFunction p arg w" w q Undefined]
        rejectFunction_extends [of w p arg] rej q RejectFn
      by (simp add: run_handler_def)
  next
    case (ResolveElement a i)
    with hok have a: "a < nextAll w" by (simp add: handler_ok_def)
    note re = ResolveElement_inv [OF assms(1) a, of prog i arg q]
    have "run_handler prog h arg q w = (Normal Undefined, snd (run_handler prog h arg q w))"
      using re(3) ResolveElement by (metis prod.collapse)
    then show ?thesis
      using post [of "snd (run_handler prog h arg q w)" Undefined] re(1,2) ResolveElement
      by (simp add: fulfil_only_def)
  next
    case Thrower
    then show ?thesis using assms(1) arg by (simp add: run_handler_def handler_post_def)
  qed
qed

lemma run_job_inv:
  assumes "inv w" "job_ok w j"
  shows "inv (run_job prog j w)" "extends w (run_job prog j w)"
proof (atomize (full), cases j)
  case (ReactionJob h arg q)
  obtain r w1 where rh: "run_handler prog h arg q w = (r, w1)" by fastforce
  from run_handler_inv [OF assms(1), of h arg q prog] assms(2) ReactionJob
  have w1: "inv w1" "extends w w1" "\<forall>v. r = Normal v \<longrightarrow> resolvable (set (trace w1)) q v"
    "\<forall>x. r = Abrupt x \<longrightarrow> \<not> is_promise x"
    by (simp_all add: handler_post_def rh)
  have q: "q < nextPromise w1" using assms(2) ReactionJob w1(2) by (simp add: extends_def)
  show "inv (run_job prog j w) \<and> extends w (run_job prog j w)"
  proof (cases r)
    case (Normal v)
    then show ?thesis
      using resolveFunction_resolvable [OF w1(1) q, of v] w1(3)
        extends_trans [OF w1(2) resolveFunction_extends [of w1 q v]]
      by (simp add: run_job_def ReactionJob rh)
  next
    case (Abrupt x)
    then show ?thesis
      using rejectFunction_inv [OF w1(1), of x q] w1(4)
        extends_trans [OF w1(2) rejectFunction_extends [of w1 q x]]
      by (simp add: run_job_def ReactionJob rh)
  qed
next
  case (ThenableJob q r)
  then have "q < nextPromise w" "adopting (set (trace w)) q r" using assms(2) by simp_all
  then have "inv (snd (Promise_then r (ResolveFn q) (RejectFn q) w))"
    using Promise_then_inv [OF assms(1), of "ResolveFn q" "RejectFn q" r]
    by (simp add: fulfil_only_def handler_ok_def)
  then show "inv (run_job prog j w) \<and> extends w (run_job prog j w)"
    using Promise_then_extends [of w r "ResolveFn q" "RejectFn q"]
    by (simp add: run_job_def ThenableJob)
qed

lemma step_inv:
  assumes "inv w" "step prog w = Some w'"
  shows "inv w'" "extends w w'"
proof -
  from assms(2) obtain j js where j: "jobs w = j # js" and w': "w' = run_job prog j (w\<lparr>jobs := js\<rparr>)"
    by (auto simp: step_def split: list.splits)
  let ?w0 = "w\<lparr>jobs := js\<rparr>"
  have i0: "inv ?w0" by (rule inv_fields [OF assms(1)]) (auto simp: j)
  have e0: "extends w ?w0" by (simp add: extends_def)
  have "job_ok w j" using inv_job [OF assms(1), of j] j by simp
  then have "job_ok ?w0 j" using e0 by (rule job_ok_extends)
  from run_job_inv [OF i0 this, of prog] e0
  show "inv w'" "extends w w'" by (auto simp: w' intro: extends_trans)
qed

lemma initial_world_inv: "inv initial_world"
  by (rule invI) (simp_all add: initial_world_def)

lemma act_inv:
  assumes "inv w"
  shows "inv (act prog a w)"
proof (cases a)
  case (ExtFulfil p)
  show ?thesis
  proof (cases "p \<in> set (externals w)")
    case False
    then show ?thesis using assms ExtFulfil by (simp add: act_def)
  next
    case True
    let ?w0 = "w\<lparr>externals := removeAll p (externals w)\<rparr>"
    have i0: "inv ?w0" by (rule inv_fields [OF assms]) auto
    from inv_external [OF assms True]
    have "p < nextPromise ?w0" "resolvable (set (trace ?w0)) p Undefined"
      by (simp_all add: resolvable_def settled_call_def unregistered_def)
    from resolveFunction_resolvable [OF i0 this]
    show ?thesis using True ExtFulfil by (simp add: act_def)
  qed
next
  case (ExtReject p)
  show ?thesis
  proof (cases "p \<in> set (externals w)")
    case False
    then show ?thesis using assms ExtReject by (simp add: act_def)
  next
    case True
    let ?w0 = "w\<lparr>externals := removeAll p (externals w)\<rparr>"
    have i0: "inv ?w0" by (rule inv_fields [OF assms]) auto
    from rejectFunction_inv [OF i0, of "Str ''Error''" p]
    show ?thesis using True ExtReject by (simp add: act_def)
  qed
next
  case (DoAddComponent e t d)
  obtain r w' where ac: "addComponent prog e t d w = (r, w')" by fastforce
  from addComponent_inv(1) [OF assms ac] show ?thesis by (simp add: act_def DoAddComponent ac)
next
  case DoRefresh
  obtain v w' where r: "refresh w = (v, w')" by fastforce
  from refresh_inv(1) [OF assms r] show ?thesis by (simp add: act_def DoRefresh r)
next
  case DoSceneMgr
  obtain p0 w1 where pr: "Promise_resolve Undefined w = (p0, w1)" by fastforce
  note w1 = Promise_resolve_ok [OF assms pr]
  from simple_then_inv(1) [OF w1(1), of SceneMgr_refresh p0]
  show ?thesis
    by (simp add: act_def DoSceneMgr SceneMgrSystem_iterate_def pr fulfil_only_def handler_ok_def)
next
  case (DoDisplay dT)
  let ?w0 = "w\<lparr>arrays := (arrays w)(nextArray w := [], nextArray w + 1 := []),
                 nextArray := nextArray w + 2\<rparr>"
  let ?w1 = "snd (Promise_resolve Undefined ?w0)"
  let ?fn = "Display_walkIterFn (nextArray w) (nextArray w + 1)"
  let ?h = "Display_calls (fst (Promise_resolve Undefined ?w0)) (nextArray w) (nextArray w + 1) dT"
  have "inv ?w0" by (rule inv_fields [OF assms]) simp_all
  then have "inv ?w1" by (rule Promise_resolve_inv(1))
  then have "inv (snd (Scene_walk ?fn True ?w1))" by (rule Scene_walk_inv)
  then have "inv (snd (Promise_then (fst (Scene_walk ?fn True ?w1)) ?h Thrower
                         (snd (Scene_walk ?fn True ?w1))))"
    by (rule simple_then_inv(1)) (simp_all add: fulfil_only_def handler_ok_def)
  then show ?thesis
    by (simp add: act_def DoDisplay DisplaySystem_iterate_def Let_def case_prod_beta)
next
  case (DoLogic dT now)
  let ?w0 = "w\<lparr>frameCount := frameCount w + 1,
                 arrays := (arrays w)(nextArray w := []), nextArray := nextArray w + 1\<rparr>"
  let ?fn = "Logic_walkIterFn (nextArray w)"
  let ?h = "Logic_updates (nextArray w) (Array [Number dT, Number (real (frameCount w)), now])"
  have "inv ?w0" by (rule inv_fields [OF assms]) simp_all
  then have "inv (snd (Scene_walk ?fn True ?w0))" by (rule Scene_walk_inv)
  then have "inv (snd (Promise_then (fst (Scene_walk ?fn True ?w0)) ?h Thrower
                         (snd (Scene_walk ?fn True ?w0))))"
    by (rule simple_then_inv(1)) (simp_all add: fulfil_only_def handler_ok_def)
  then show ?thesis
    by (simp add: act_def DoLogic LogicSystem_iterate_def Let_def case_prod_beta)
next
  case (DoOps ops)
  have "inv (w\<lparr>entities := snd (run_ops ops (entities w))\<rparr>)"
    by (rule inv_fields [OF assms]) simp_all
  then show ?thesis by (simp add: act_def DoOps)
next
  case (DoSetActive e b)
  have "inv (w\<lparr>entities := setActive e b (entities w)\<rparr>)"
    by (rule inv_fields [OF assms]) simp_all
  then show ?thesis by (simp add: act_def DoSetActive)
qed

lemma reachable_inv: "reachable prog w \<Longrightarrow> inv w"
  by (induction rule: reachable.induct) (auto intro: initial_world_inv step_inv(1) act_inv)

lemma ordered_prefix: "ordered (a @ b) \<Longrightarrow> ordered a"
  by (induction b rule: rev_induct) (simp_all add: ordered_snoc flip: append_assoc)

lemma Then_before_Fulfil:
  assumes "ordered t" "t = pre @ Fulfil q # post" "Then p h q \<in> set t"
  shows "Then p h q \<in> set pre"
proof (rule ccontr)
  assume "Then p h q \<notin> set pre"
  with assms(2,3) have "Then p h q \<in> set post" by auto
  then obtain a b where post: "post = a @ Then p h q # b" by (auto dest: split_list)
  have "t = (pre @ Fulfil q # a) @ Then p h q # b" by (simp add: assms(2) post)
  from ordered_split [OF assms(1) this] show False by simp
qed

lemma fulfilled_settled:
  assumes "ordered t" "Fulfil q \<in> set t" "Then p h q \<in> set t" "invoked h = Some i"
  shows "\<exists>v. start q i \<in> set t \<and> Return q v \<in> set t \<and> (\<forall>r. v = Promise r \<longrightarrow> Fulfil r \<in> set t)"
proof -
  from assms(2) obtain pre post where t: "t = pre @ Fulfil q # post" by (auto dest: split_list)
  from Then_before_Fulfil [OF assms(1) t assms(3)] have th: "Then p h q \<in> set pre" .
  from ordered_split [OF assms(1) t] have "settled_call (set pre) q" by simp
  with th assms(4) obtain v where
    "start q i \<in> set pre" "Return q v \<in> set pre" "\<forall>r. v = Promise r \<longrightarrow> Fulfil r \<in> set pre"
    unfolding settled_call_def by blast
  then show ?thesis unfolding t by auto
qed

lemma enqueue_created:
  assumes "ordered t" "t = pre @ Enqueue c # post"
  shows "created pre c"
proof -
  have op: "ordered pre" using assms by (auto intro: ordered_prefix)
  from ordered_split [OF assms] obtain p d q where
    th: "Then p (addComponent_created c d) q \<in> set pre" and fu: "Fulfil p \<in> set pre"
    by auto
  from th obtain a b where pre: "pre = a @ Then p (addComponent_created c d) q # b"
    by (auto dest: split_list)
  from ordered_split [OF op pre] obtain p0 where "Then p0 (addComponent_create c d) p \<in> set a"
    by auto
  then have "Then p0 (addComponent_create c d) p \<in> set pre" by (simp add: pre)
  from fulfilled_settled [OF op fu this, of "Method Create c"]
  show ?thesis unfolding created_def by auto
qed

lemma created_mono: "created a c \<Longrightarrow> set a \<subseteq> set b \<Longrightarrow> created b c"
  unfolding created_def by blast

lemma reachable_run: "reachable prog w \<Longrightarrow> reachable prog (run n prog w)"
  by (induction n arbitrary: w) (auto split: option.splits intro: reachable.job)

section \<open>The walk and the display system\<close>

lemma Promise_then_arrays [simp]:
  "arrays (snd (Promise_then p onF onR w)) = arrays w"
  "nextArray (snd (Promise_then p onF onR w)) = nextArray w"
  by (simp_all add: Promise_then_def newPromise_def emit_def split: pstate.splits)





lemma length_walk_handlers [simp]: "length (walk_handlers fn oa cks) = 2 * length cks"
  by (induction cks) (simp_all add: walk_handlers_def)

lemma walk_handlers_Nil [simp]: "walk_handlers fn oa cks = [] \<longleftrightarrow> cks = []"
  by (cases cks) (simp_all add: walk_handlers_def)









text \<open>
  A component added to an entity after \<open>iterate\<close> has returned, but before the walk visits
  the entity, is collected and displayed: the walk reads the components when its handler
  runs.
\<close>

lemma display_collects_later_component:
  "arrays display_then_add 0 = [0, 1, 3] \<and> arrays display_then_add 1 = [2]
   \<and> Then 22 (Display_display 3 (Number 0)) 23 \<in> set (trace display_then_add)"
  by (simp add: display_then_add_def loading_scene_def loading_program_def machine_defs
        eval_nat_numeral addChild_def fresh_store_def new_Entity_def walkChildren_def)

section \<open>Properties\<close>

text \<open>
  Claim C8. For every pair of consecutive frame timestamps, the delta-time value the
  frame loop passes to the per-frame actions is the quotient \<open>(time - lastTime) / 1000\<close>
  as the code computes it, clamped into the closed interval \<open>[0, 0.1]\<close>: it is \<open>0\<close>
  when the quotient is negative, \<open>0.1\<close> when the quotient exceeds \<open>0.1\<close>, and the
  quotient itself otherwise; so it is never negative and never exceeds \<open>0.1\<close> seconds,
  however far apart the two timestamps are. This holds whatever the rounding \<open>fl\<close> of
  the arithmetic is, \<open>0.1\<close> being the number \<open>fl (1 / 10)\<close> that the literal denotes,
  which is not negative.
\<close>

theorem loop_delta_clamped:
  assumes "i < length ts" and "0 \<le> fl (1 / 10)"
  shows "(let d = fl (fl (ts ! i - (lastTime # ts) ! i) / 1000)
          in loop fl lastTime ts ! i
               = (if d < 0 then 0 else if fl (1 / 10) < d then fl (1 / 10) else d))
         \<and> 0 \<le> loop fl lastTime ts ! i \<and> loop fl lastTime ts ! i \<le> fl (1 / 10)"
  using assms(1)
proof (induction ts arbitrary: lastTime i)
  case Nil
  then show ?case by simp
next
  case (Cons time ts)
  show ?case
  proof (cases i)
    case 0
    then show ?thesis using assms(2) by (simp add: clamp_def Let_def min_def max_def)
  next
    case (Suc j)
    with Cons.prems have "j < length ts" by simp
    from Cons.IH [OF this, of time] Suc show ?thesis by (simp add: Let_def)
  qed
qed

text \<open>
  With exact arithmetic, from \<open>lastTime = 0\<close>: a frame after 16 ms, a frame after a
  long suspension, and a timestamp that is earlier than the one before it.
\<close>

theorem loop_delta_clamped_witness:
  "(2::nat) < length [16, 5000000, 4000000 :: real]
   \<and> (0::real) \<le> (\<lambda>x. x) (1 / 10)
   \<and> loop (\<lambda>x. x) 0 [16, 5000000, 4000000] ! 0 = 2 / 125
   \<and> loop (\<lambda>x. x) 0 [16, 5000000, 4000000] ! 1 = 1 / 10
   \<and> loop (\<lambda>x. x) 0 [16, 5000000, 4000000] ! 2 = 0"
  using loop_delta_clamped [of 0 "[16, 5000000, 4000000]" "\<lambda>x. x" 0]
    loop_delta_clamped [of 1 "[16, 5000000, 4000000]" "\<lambda>x. x" 0]
    loop_delta_clamped [of 2 "[16, 5000000, 4000000]" "\<lambda>x. x" 0]
  by (simp add: Let_def)

text \<open>
  Claim C4. \<open>e.addChild(name, c)\<close> throws when \<open>c\<close> already has a parent, and
  \<open>e.removeChild(c)\<close> throws when \<open>c.parent\<close> is not \<open>e\<close>; in both cases the store
  is the one before the call: no child collection, order index or parent reference of
  any entity has changed.
\<close>

theorem addChild_removeChild_error_atomic:
  "(parent (s c) \<noteq> None \<longrightarrow> addChild e objectName c s = (Some AlreadyParented, s))
   \<and> (parent (s c) \<noteq> Some e \<longrightarrow> removeChild e c s = (Some NotParentedHere, s))"
  by (simp add: addChild_def removeChild_def)

theorem addChild_removeChild_error_atomic_witness:
  "parent (snd (addChild 0 ''a'' 1 fresh_store) 1) \<noteq> None
   \<and> addChild 2 ''b'' 1 (snd (addChild 0 ''a'' 1 fresh_store))
       = (Some AlreadyParented, snd (addChild 0 ''a'' 1 fresh_store))
   \<and> parent (snd (addChild 0 ''a'' 1 fresh_store) 1) \<noteq> Some 2
   \<and> removeChild 2 1 (snd (addChild 0 ''a'' 1 fresh_store))
       = (Some NotParentedHere, snd (addChild 0 ''a'' 1 fresh_store))"
proof -
  have p: "parent (snd (addChild 0 ''a'' 1 fresh_store) 1) = Some 0"
    by (simp add: addChild_def fresh_store_def new_Entity_def Let_def)
  show ?thesis
    using addChild_removeChild_error_atomic
      [of "snd (addChild 0 ''a'' 1 fresh_store)" 1 2 "''b''"] p
    by simp
qed

text \<open>
  Claim C7. After any history of \<open>addChild\<close> and \<open>removeChild\<close> calls,
  \<open>e.walkChildren(fn)\<close> calls \<open>fn\<close> on the children that \<open>e\<close> owns, in the order in
  which they were added (ascending \<open>order\<close>), whatever other children were removed or
  added again in between: children \<open>c1\<close>, \<open>c2\<close>, \<open>c3\<close> added in that order are visited
  in that order.
\<close>

theorem walkChildren_insertion_sequence:
  "walkChildren e (snd (run_ops ops fresh_store))
     = insertion_sequence e (fst (run_ops ops fresh_store))"
proof -
  obtain h s where r: "run_ops ops fresh_store = (h, s)" by (cases "run_ops ops fresh_store")
  from run_ops_kids [OF entity_inv_fresh r, of e]
  have "entity_inv s" and "kids s e = foldl (record_call e) (kids fresh_store e) h"
    by simp_all
  moreover have "kids fresh_store e = []"
    by (simp add: kids_def fresh_store_def new_Entity_def)
  ultimately show ?thesis
    by (simp add: r walkChildren_kids insertion_sequence_def)
qed

theorem walkChildren_insertion_sequence_witness:
  "walkChildren 0 (snd (run_ops
       [AddChild 0 ''c1'' 1, AddChild 0 ''x'' 4, AddChild 0 ''c2'' 2, RemoveChild 0 4,
        AddChild 0 ''c3'' 3, AddChild 0 ''x'' 4, AddChild 5 ''y'' 2] fresh_store))
     = [(1, ''c1''), (2, ''c2''), (3, ''c3''), (4, ''x'')]"
  using walkChildren_insertion_sequence [of 0
       "[AddChild 0 ''c1'' 1, AddChild 0 ''x'' 4, AddChild 0 ''c2'' 2, RemoveChild 0 4,
        AddChild 0 ''c3'' 3, AddChild 0 ''x'' 4, AddChild 5 ''y'' 2]"]
  by (simp add: insertion_sequence_def addChild_def removeChild_def fresh_store_def
        new_Entity_def Let_def)

text \<open>
  Claim C2, as the code has it. With \<open>onlyActive\<close>, \<open>Scene.walk\<close> on a tree (the
  parent references mirror the child sets, the root has no parent, the depth is
  bounded) settles; it never calls \<open>fn\<close> on a descendant of an inactive entity, nor on
  the root itself; and when no callback rejects it calls \<open>fn\<close> on every active entity
  below the root whose ancestors are all active. For root, A (active), B (inactive),
  C (active) in a chain, \<open>fn\<close> is called on A and never on C or on the root.
\<close>

theorem walk_onlyActive:
  fixes fn :: "ref \<Rightarrow> string \<Rightarrow> 'a \<Rightarrow> 'e + 'a"
  assumes inv: "entity_inv s" and orphan: "parent (s rt) = None" and depth: "depth_le n s rt"
  shows "\<exists>vs out. walk n s rt fn True a = Some (vs, out)
     \<and> rt \<notin> fst ` set vs
     \<and> (\<forall>b c. \<not> active (s b) \<and> descendant s b c \<longrightarrow> c \<notin> fst ` set vs)
     \<and> ((\<exists>a'. out = Inr a') \<longrightarrow> (\<forall>c. active_below s rt c \<longrightarrow> c \<in> fst ` set vs))"
proof -
  from walkRecursive_returns [OF depth, of fn "''(root)''" True "([], a)"]
  obtain vs out where w: "walkRecursive n s fn rt ''(root)'' True ([], a) = Some (vs, out)"
    by auto
  from walkRecursive_sound [OF w]
  have sound: "\<And>ck. ck \<in> set vs \<Longrightarrow> has_walked_parent s rt vs ck" by simp
  have par: "\<And>c. c \<in> fst ` set vs \<Longrightarrow>
               \<exists>p. parent (s c) = Some p \<and> active (s p) \<and> (p = rt \<or> p \<in> fst ` set vs)"
  proof -
    fix c assume "c \<in> fst ` set vs"
    then obtain ck where ck: "ck \<in> set vs" "c = fst ck" by auto
    from sound [OF ck(1)] obtain p where
      "ck \<in> set (walkChildren p s)" "active (s p)" "p = rt \<or> p \<in> fst ` set vs"
      unfolding has_walked_parent_def by auto
    with walkChildren_parent [OF inv, of ck p] ck(2)
    show "\<exists>p. parent (s c) = Some p \<and> active (s p) \<and> (p = rt \<or> p \<in> fst ` set vs)"
      by auto
  qed
  have no_root: "rt \<notin> fst ` set vs"
    using par [of rt] orphan by auto
  have skipped: "c \<notin> fst ` set vs" if "\<not> active (s b)" "descendant s b c" for b c
    using that(2)
  proof (induction rule: descendant.induct)
    case (child ck)
    show ?case
    proof
      assume "fst ck \<in> fst ` set vs"
      from par [OF this] walkChildren_parent [OF inv child] that(1) show False by auto
    qed
  next
    case (step m ck)
    show ?case
    proof
      assume "fst ck \<in> fst ` set vs"
      from par [OF this] walkChildren_parent [OF inv step(2)]
      have "m = rt \<or> m \<in> fst ` set vs" by auto
      moreover have "m \<noteq> rt"
        using descendant_has_parent [OF step(1) inv] orphan by auto
      ultimately show False using step(3) by simp
    qed
  qed
  have complete: "c \<in> fst ` set vs" if "out = Inr a'" "active_below s rt c" for a' c
  proof -
    from walkRecursive_complete [OF w [unfolded that(1)]]
    have top: "active (s rt) \<longrightarrow> set (walkChildren rt s) \<subseteq> set vs"
      and rest: "\<forall>p \<in> fst ` set vs. active (s p) \<longrightarrow> set (walkChildren p s) \<subseteq> set vs"
      by auto
    from that(2) show ?thesis
    proof (induction rule: active_below.induct)
      case (top ck)
      with \<open>active (s rt) \<longrightarrow> set (walkChildren rt s) \<subseteq> set vs\<close> show ?case by auto
    next
      case (below p ck)
      then have "active (s p)" by (auto elim: active_below.cases)
      with below rest show ?case by auto
    qed
  qed
  show ?thesis
    unfolding walk_def using w no_root skipped complete by blast
qed

theorem walk_onlyActive_witness:
  "entity_inv scene_inactive \<and> parent (scene_inactive 0) = None \<and> depth_le 4 scene_inactive 0
   \<and> (\<exists>vs out. walk 4 scene_inactive 0 visit_only True () = Some (vs, out)
        \<and> 0 \<notin> fst ` set vs \<and> 3 \<notin> fst ` set vs \<and> 1 \<in> fst ` set vs)"
proof -
  have orphan: "parent (scene_inactive 0) = None" by (simp add: ex_simps)
  have depth: "depth_le 4 scene_inactive 0" by (simp add: ex_simps eval_nat_numeral)
  have inactive: "\<not> active (scene_inactive 2)" by (simp add: ex_simps)
  have "(3, ''C'') \<in> set (walkChildren 2 scene_inactive)" by (simp add: ex_simps)
  from descendant.child [OF this] have desc: "descendant scene_inactive 2 3" by simp
  have "active (scene_inactive 0)" "(1, ''A'') \<in> set (walkChildren 0 scene_inactive)" "active (scene_inactive 1)"
    by (simp_all add: ex_simps)
  from active_below.top [OF this(1) this(2)] this(3) have below: "active_below scene_inactive 0 1" by simp
  from walk_onlyActive [OF scene_inactive_inv orphan depth, of visit_only "()"]
  obtain vs out where w: "walk 4 scene_inactive 0 visit_only True () = Some (vs, out)"
    "0 \<notin> fst ` set vs"
    "\<forall>b c. \<not> active (scene_inactive b) \<and> descendant scene_inactive b c \<longrightarrow> c \<notin> fst ` set vs"
    "(\<exists>a'. out = Inr a') \<longrightarrow> (\<forall>c. active_below scene_inactive 0 c \<longrightarrow> c \<in> fst ` set vs)"
    by blast
  have "walk 4 scene_inactive 0 visit_only True () = Some ([(1, ''A''), (2, ''B'')], Inr ())"
    by (simp add: ex_simps eval_nat_numeral)
  with w(1) have "out = Inr ()" by simp
  with w(4) below have "1 \<in> fst ` set vs" by blast
  moreover from w(3) inactive desc have "3 \<notin> fst ` set vs" by blast
  ultimately show ?thesis using scene_inactive_inv orphan depth w(1,2) by blast
qed

text \<open>
  Claim C2 as stated fails on the chain root, A, B (inactive), C: \<open>fn\<close> is called on A and
  on the inactive B, in that order, and on nothing else; in particular not on the root.
\<close>

theorem walk_onlyActive_counterexample:
  "walk 4 scene_inactive 0 visit_only True () = Some ([(1, ''A''), (2, ''B'')], Inr ()) \<and> \<not> active (scene_inactive 2)"
  by (simp add: ex_simps eval_nat_numeral)


text \<open>
  Claim C5, as the code has it. On a tree of bounded depth \<open>Scene.findObject(name)\<close>
  returns; it searches the root and its descendants depth-first, parent before children
  and siblings in ascending order (the order of \<open>walk\<close>), for the first entity that
  has a direct child registered under \<open>name\<close> in its by-name index, and returns that
  child; it returns an absent value when no entity of the tree has such a child.
\<close>

theorem findObject_first_parent:
  "depth_le n s rt \<Longrightarrow>
     \<exists>vs. walk n s rt visit_only False () = Some (vs, Inr ())
        \<and> findObject n s rt nm = Some (first_by_name s nm (rt # map fst vs))"
  using findObjectRecursive_walk [of n s rt "''(root)''" "[]" nm]
  by (simp add: walk_def findObject_def)

theorem findObject_first_parent_witness:
  "depth_le 3 scene_two_names 0
   \<and> walk 3 scene_two_names 0 visit_only False () = Some ([(1, ''a''), (2, ''t''), (3, ''t'')], Inr ())
   \<and> findObject 3 scene_two_names 0 ''t'' = Some (first_by_name scene_two_names ''t'' [0, 1, 2, 3])
   \<and> first_by_name scene_two_names ''t'' [0, 1, 2, 3] = Some 3"
proof -
  have d: "depth_le 3 scene_two_names 0" by (simp add: ex_simps eval_nat_numeral)
  have w: "walk 3 scene_two_names 0 visit_only False () = Some ([(1, ''a''), (2, ''t''), (3, ''t'')], Inr ())"
    by (simp add: ex_simps eval_nat_numeral)
  have f: "first_by_name scene_two_names ''t'' [0, 1, 2, 3] = Some 3"
    by (simp add: first_by_name_def getChild_def ex_simps)
  from findObject_first_parent [OF d, of "''t''"] w
  have "findObject 3 scene_two_names 0 ''t'' = Some (first_by_name scene_two_names ''t'' [0, 1, 2, 3])" by simp
  with d w f show ?thesis by simp
qed

text \<open>
  Claim C5 as stated fails where root owns \<open>a\<close> and then \<open>t\<close>, and \<open>a\<close> owns another
  \<open>t\<close>: the walk visits the \<open>t\<close> below \<open>a\<close> (entity 2) before the \<open>t\<close> below the
  root (entity 3), and \<open>findObject\<close> returns the latter.
\<close>

theorem findObject_walk_order_counterexample:
  "findObject 3 scene_two_names 0 ''t'' = Some (Some 3) \<and> first_in_walk_order 3 scene_two_names 0 ''t'' = Some (Some 2)"
  by (simp add: findObject_def first_in_walk_order_def getChild_def find_callback_def ex_simps
        eval_nat_numeral)

text \<open>
  Claim C10. \<open>Component.findComponent\<close> returns an argument that is not a string
  unchanged, so that a descriptor field holding a component instance passes through
  untouched; only a string is split at the dots and resolved, its first piece by
  \<open>findObject\<close> and its second by \<open>getComponent\<close> on the object found.
\<close>

theorem findComponent_non_string:
  "((\<forall>str. v \<noteq> Str str) \<longrightarrow> findComponent n s rt v = Some v)
   \<and> findComponent n s rt (Str str) =
       map_option
         (\<lambda>target. case target of
             None \<Rightarrow> Undefined
           | Some e \<Rightarrow>
               (case tl (js_split CHR ''.'' str) of
                  [] \<Rightarrow> Undefined
                | type # _ \<Rightarrow>
                    (case getComponent e type s of None \<Rightarrow> Undefined | Some c \<Rightarrow> Component c)))
         (findObject n s rt (hd (js_split CHR ''.'' str)))"
proof -
  have "js_split CHR ''.'' str \<noteq> []"
    by (cases str) (auto split: list.splits)
  then obtain t ts where "js_split CHR ''.'' str = t # ts"
    by (cases "js_split CHR ''.'' str") auto
  then show ?thesis
    by (cases v) (auto simp: findComponent_def split: option.splits list.splits)
qed

theorem findComponent_non_string_witness:
  "(\<forall>str. Component 7 \<noteq> Str str)
   \<and> findComponent 3 scene_with_sprite 0 (Component 7) = Some (Component 7)
   \<and> findComponent 3 scene_with_sprite 0 (Str ''a.Sprite'') = Some (Component 5)
   \<and> findComponent 3 scene_with_sprite 0 (Str ''a'') = Some Undefined"
  using findComponent_non_string [of "Component 7" 3 scene_with_sprite 0 "''a.Sprite''"]
    findComponent_non_string [of "Component 7" 3 scene_with_sprite 0 "''a''"]
  by (simp add: scene_with_sprite_def findObject_def getChild_def find_callback_def
        getComponent_def ex_simps eval_nat_numeral)

text \<open>
  Claim C1, at the failing input. The unresolved-setup queue holds the player, whose
  \<open>setup\<close> adds a sprite component. When the promise returned by \<open>Scene.refresh()\<close>
  is settled, the sprite is in the queue and its \<open>setup\<close> has not been called (only that
  of the player has): the second pass, started by \<open>() => { this.refresh(); }\<close>, is not
  awaited, as that callback does not return its promise. The queue has not been drained
  to a fixed point.
\<close>

theorem refresh_settles_before_fixed_point:
  "map_option (\<lambda>w. (compDescr w, setup_calls (trace w), jobs w)) refresh_settled
     = Some ([(1, Object 1)], [Call 4 Setup 0],
             [ReactionJob (setupMissing_setup 1 (Object 1)) Undefined 14])"
  by (simp add: refresh_settled_def setup_calls_def player_created_def player_program_def
        machine_defs eval_nat_numeral)

text \<open>
  Claim C3. In every execution (jobs, calls of \<open>addComponent\<close>, \<open>refresh\<close> and the frame
  systems, and loads that end or fail, in any order) a component is enqueued in the
  unresolved-setup queue only after its \<open>create\<close> has been called and has returned and
  the promise it returned, if any, has been fulfilled; and \<open>setup\<close> is called on a
  component only after the component has been enqueued, hence after its \<open>create\<close> has
  settled, and only by the handler \<open>() => comp.setup(descr)\<close> that \<open>setupMissing\<close>
  (called by \<open>Scene.refresh\<close>) chains for a queued component, once the promise it is
  chained on is fulfilled.
\<close>

theorem setup_after_create:
  assumes "reachable prog w"
  shows "(\<forall>pre c post. trace w = pre @ Enqueue c # post \<longrightarrow> created pre c)
       \<and> (\<forall>pre q c post. trace w = pre @ Call q Setup c # post \<longrightarrow>
            Enqueue c \<in> set pre \<and> created pre c
            \<and> (\<exists>p d. Then p (setupMissing_setup c d) q \<in> set pre \<and> Fulfil p \<in> set pre))"
proof (intro conjI allI impI)
  have ord: "ordered (trace w)" using assms by (intro inv_ordered reachable_inv)
  {
    fix pre c post assume "trace w = pre @ Enqueue c # post"
    from enqueue_created [OF ord this] show "created pre c" .
  }
  fix pre q c post assume t: "trace w = pre @ Call q Setup c # post"
  have op: "ordered pre" using ord t by (auto intro: ordered_prefix)
  from ordered_split [OF ord t] obtain p h where
    th: "Then p h q \<in> set pre" "Fulfil p \<in> set pre" "runs h (Method Setup c)"
    and en: "Enqueue c \<in> set pre"
    by auto
  show "Enqueue c \<in> set pre" by fact
  from en obtain a b where pre: "pre = a @ Enqueue c # b" by (auto dest: split_list)
  from enqueue_created [OF op pre] show "created pre c"
    by (rule created_mono) (auto simp: pre)
  from th(3) obtain d where "h = setupMissing_setup c d"
    by (cases h) (auto simp: runs_def)
  with th show "\<exists>p d. Then p (setupMissing_setup c d) q \<in> set pre \<and> Fulfil p \<in> set pre"
    by auto
qed

text \<open>
  In the execution of the player program, the \<open>setup\<close> of the sprite (component 1, added
  by the \<open>setup\<close> of the player) is called after the sprite was created and enqueued.
\<close>

theorem setup_after_create_witness:
  "reachable player_program player_set_up
   \<and> (\<exists>pre post. trace player_set_up = pre @ Call 14 Setup 1 # post
        \<and> Enqueue 1 \<in> set pre \<and> created pre 1)"
proof -
  have r: "reachable player_program player_set_up"
    unfolding player_set_up_def player_created_def
    by (intro reachable_run reachable.action reachable.init)
  have t: "trace player_set_up =
     [Fulfil 0, Then 0 (addComponent_create 0 (Object 0)) 1,
      Then 1 (addComponent_created 0 (Object 0)) 2, Call 1 Create 0,
      Return 1 Undefined, Fulfil 1, Enqueue 0, Fulfil 2, Fulfil 3,
      Then 3 (setupMissing_setup 0 (Object 0)) 4,
      Then 4 (setupMissing_delete 0) 5, Then 5 (ResolveElement 0 0) 7,
      Then 6 refresh_again 8, Call 4 Setup 0, Fulfil 9,
      Then 9 (addComponent_create 1 (Object 1)) 10,
      Then 10 (addComponent_created 1 (Object 1)) 11, Return 4 (Promise 11),
      Call 10 Create 1, Return 10 Undefined, Fulfil 10,
      Then 11 (ResolveFn 4) 12, Enqueue 1, Fulfil 11, Fulfil 4, Fulfil 12,
      Fulfil 5, Fulfil 6, Fulfil 7, Fulfil 13,
      Then 13 (setupMissing_setup 1 (Object 1)) 14,
      Then 14 (setupMissing_delete 1) 15, Then 15 (ResolveElement 1 0) 17,
      Then 16 refresh_again 18, Fulfil 8]
     @ Call 14 Setup 1 # [Return 14 Undefined,
      Fulfil 14, Fulfil 15, Fulfil 16, Fulfil 17, Fulfil 18]"
    by (simp add: player_set_up_def player_created_def player_program_def
          machine_defs eval_nat_numeral)
  note after = setup_after_create [OF r, THEN conjunct2, rule_format, OF t]
  from after have "Enqueue 1 \<in> set (take 35 (trace player_set_up))"
    and "created (take 35 (trace player_set_up)) 1"
    by (simp_all add: t)
  with t show ?thesis using r by (intro conjI exI [of _ "take 35 (trace player_set_up)"]
      exI [of _ "drop 36 (trace player_set_up)"]) simp_all
qed




text \<open>
  Claim C9. When \<open>e.addComponent(t, d)\<close> returns (the type being registered),
  \<open>e.getComponent(t)\<close> is the newly constructed component, the promise returned is
  pending, and \<open>create\<close> has not been called: the call has only queued the job that
  will call it, and the trace has gained no call event.
\<close>

theorem addComponent_synchronous:
  "creator prog t = Some caps \<Longrightarrow>
     \<exists>p w'. addComponent prog e t d w = (Normal (Promise p), w')
       \<and> getComponent e t (entities w') = Some (nextComp w)
       \<and> promises w' p = Pending
       \<and> jobs w' = jobs w @ [ReactionJob (addComponent_create (nextComp w) d) Undefined
                                (nextPromise w + 1)]
       \<and> trace w' = trace w @
            [Fulfil (nextPromise w),
             Then (nextPromise w) (addComponent_create (nextComp w) d) (nextPromise w + 1),
             Then (nextPromise w + 1) (addComponent_created (nextComp w) d) (nextPromise w + 2)]"
  by (cases caps)
     (simp add: addComponent_def Promise_resolve_def Promise_then_def newPromise_def emit_def
        getComponent_def update_conv' Let_def)

theorem addComponent_synchronous_witness:
  "creator player_program ''Player'' = Some (False, False, False)
   \<and> (\<exists>p w'. addComponent player_program 1 ''Player'' (Object 0) initial_world
                 = (Normal (Promise p), w')
         \<and> getComponent 1 ''Player'' (entities w') = Some 0
         \<and> promises w' p = Pending
         \<and> jobs w' = [ReactionJob (addComponent_create 0 (Object 0)) Undefined 1]
         \<and> trace w' = [Fulfil 0, Then 0 (addComponent_create 0 (Object 0)) 1,
                        Then 1 (addComponent_created 0 (Object 0)) 2])"
proof -
  have c: "creator player_program ''Player'' = Some (False, False, False)"
    by (simp add: player_program_def)
  from addComponent_synchronous [OF c, of 1 "Object 0" initial_world]
  show ?thesis using c by (simp add: initial_world_def numeral_2_eq_2)
qed

end
